theory Spec2Isabelle
  imports Complex_Main "HOL-Library.Product_Lexorder"
begin

section \<open>Python values\<close>

text \<open>
  The two document structures reach \<open>compare_structures\<close> straight from \<open>json.loads\<close>,
  so they are arbitrary JSON values. A string is a list of code points below 256 (one
  \<open>char\<close> per code point), a float is carried as its \<open>repr\<close> text (the program only
  stringifies floats and tests them for truth), and an object is an association list in
  which the first binding of a key counts.
\<close>

datatype pyval =
    PNone
  | PBool bool
  | PInt int
  | PFloat string
  | PStr string
  | PList "pyval list"
  | PDict "(string \<times> pyval) list"

datatype error = AttributeError | TypeError

text \<open>
  A computation that may raise returns \<open>Inl\<close> the exception or \<open>Inr\<close> its value;
  \<open>bind_err m f\<close> runs \<open>m\<close> and then \<open>f\<close> on its value, and an exception of \<open>m\<close> ends the
  whole computation.
\<close>

definition bind_err :: "error + 'a \<Rightarrow> ('a \<Rightarrow> error + 'b) \<Rightarrow> error + 'b" where
  "bind_err m f = (case m of Inl e \<Rightarrow> Inl e | Inr x \<Rightarrow> f x)"

text \<open>Truth value of an object, as \<open>if x\<close> tests it.\<close>

fun truthy :: "pyval \<Rightarrow> bool" where
  "truthy PNone = False"
| "truthy (PBool b) = b"
| "truthy (PInt i) = (i \<noteq> 0)"
| "truthy (PFloat s) = (s \<noteq> ''0.0'' \<and> s \<noteq> ''-0.0'')"
| "truthy (PStr s) = (s \<noteq> [])"
| "truthy (PList xs) = (xs \<noteq> [])"
| "truthy (PDict kvs) = (kvs \<noteq> [])"

text \<open>\<open>x.get(key, default)\<close>: only a dict has the method.\<close>

fun py_get :: "pyval \<Rightarrow> string \<Rightarrow> pyval \<Rightarrow> error + pyval" where
  "py_get (PDict kvs) key dflt = Inr (case map_of kvs key of None \<Rightarrow> dflt | Some v \<Rightarrow> v)"
| "py_get _ key dflt = Inl AttributeError"

text \<open>
  Iteration (\<open>for x in v\<close>, \<open>enumerate(v)\<close>): a list gives its elements, a string its
  characters, a dict its keys; nothing else is iterable.
\<close>

fun py_iter :: "pyval \<Rightarrow> error + pyval list" where
  "py_iter (PList xs) = Inr xs"
| "py_iter (PStr s) = Inr (map (\<lambda>c. PStr [c]) s)"
| "py_iter (PDict kvs) = Inr (map (\<lambda>kv. PStr (fst kv)) kvs)"
| "py_iter _ = Inl TypeError"

subsection \<open>\<open>str\<close> and \<open>repr\<close>\<close>

function digits :: "nat \<Rightarrow> string" where
  "digits n = (if n < 10 then [char_of (48 + n)] else digits (n div 10) @ [char_of (48 + n mod 10)])"
  by pat_completeness auto
termination
  by (relation "measure (\<lambda>n. n)") auto

declare digits.simps [simp del]

definition int_str :: "int \<Rightarrow> string" where
  "int_str i = (if i < 0 then CHR ''-'' # digits (nat (- i)) else digits (nat i))"

definition hex_digit :: "nat \<Rightarrow> char" where
  "hex_digit n = (if n < 10 then char_of (48 + n) else char_of (87 + n))"

definition repr_char :: "char \<Rightarrow> char \<Rightarrow> string" where
  "repr_char q c =
     (let n = (of_char c :: nat) in
      if c = CHR 0x5C then [CHR 0x5C, CHR 0x5C]
      else if c = q then [CHR 0x5C, q]
      else if n = 9 then [CHR 0x5C, CHR ''t'']
      else if n = 10 then [CHR 0x5C, CHR ''n'']
      else if n = 13 then [CHR 0x5C, CHR ''r'']
      else if n < 32 \<or> (127 \<le> n \<and> n \<le> 160) \<or> n = 173
        then [CHR 0x5C, CHR ''x'', hex_digit (n div 16), hex_digit (n mod 16)]
      else [c])"

definition repr_str :: "string \<Rightarrow> string" where
  "repr_str s =
     (let q = (if CHR 0x27 \<in> set s \<and> CHR 0x22 \<notin> set s then CHR 0x22 else CHR 0x27)
      in [q] @ concat (map (repr_char q) s) @ [q])"

fun join :: "string \<Rightarrow> string list \<Rightarrow> string" where
  "join sep [] = []"
| "join sep [x] = x"
| "join sep (x # y # ys) = x @ sep @ join sep (y # ys)"

fun py_repr :: "pyval \<Rightarrow> string" where
  "py_repr PNone = ''None''"
| "py_repr (PBool b) = (if b then ''True'' else ''False'')"
| "py_repr (PInt i) = int_str i"
| "py_repr (PFloat s) = s"
| "py_repr (PStr s) = repr_str s"
| "py_repr (PList xs) = ''['' @ join '', '' (map py_repr xs) @ '']''"
| "py_repr (PDict kvs) =
     ''{'' @ join '', '' (map (\<lambda>kv. repr_str (fst kv) @ '': '' @ py_repr (snd kv)) kvs) @ ''}''"

fun py_str :: "pyval \<Rightarrow> string" where
  "py_str (PStr s) = s"
| "py_str v = py_repr v"

section \<open>Floating point\<close>

text \<open>
  A finite double is the rational it denotes. Every float operation of the program is the
  exact operation followed by \<open>fl\<close>, rounding to the nearest number with a 53-bit
  significand, ties to even. The exponent range is left unbounded: the scores lie in
  \<open>[0, 1]\<close> and are quotients of string lengths, far from overflow and underflow.
\<close>

function expo :: "rat \<Rightarrow> int" where
  "expo x = (if x \<le> 0 then 0
             else if 2 \<le> x then expo (x / 2) + 1
             else if x < 1 then expo (2 * x) - 1
             else 0)"
  by pat_completeness auto
termination
proof (relation "measure (\<lambda>x. if 1 \<le> x then nat \<lfloor>x\<rfloor> else nat \<lfloor>1 / x\<rfloor> + 1)")
  show "wf (measure (\<lambda>x::rat. if 1 \<le> x then nat \<lfloor>x\<rfloor> else nat \<lfloor>1 / x\<rfloor> + 1))"
    by simp
next
  fix x :: rat
  assume "\<not> x \<le> 0" "2 \<le> x"
  then have "\<lfloor>x / 2\<rfloor> < \<lfloor>x\<rfloor>" "0 < \<lfloor>x\<rfloor>"
    by linarith+
  with \<open>2 \<le> x\<close> show "(x / 2, x) \<in> measure (\<lambda>x. if 1 \<le> x then nat \<lfloor>x\<rfloor> else nat \<lfloor>1 / x\<rfloor> + 1)"
    by simp
next
  fix x :: rat
  assume pos: "\<not> x \<le> 0" and "\<not> 2 \<le> x" and lt: "x < 1"
  have inv: "1 / (2 * x) = (1 / x) / 2"
    by simp
  have gt1: "1 < 1 / x"
    using pos lt by (simp add: field_simps)
  show "(2 * x, x) \<in> measure (\<lambda>x. if 1 \<le> x then nat \<lfloor>x\<rfloor> else nat \<lfloor>1 / x\<rfloor> + 1)"
  proof (cases "1 \<le> 2 * x")
    case True
    then have "2 * x < 2" "\<lfloor>2 * x\<rfloor> = 1"
      using lt by linarith+
    moreover have "1 \<le> \<lfloor>1 / x\<rfloor>"
      using gt1 by linarith
    ultimately show ?thesis
      using True lt by simp
  next
    case False
    then have "2 \<le> 1 / x"
      using pos by (simp add: field_simps)
    moreover have "\<And>y::rat. 2 \<le> y \<Longrightarrow> \<lfloor>y / 2\<rfloor> < \<lfloor>y\<rfloor> \<and> 0 < \<lfloor>y\<rfloor>"
      by linarith
    ultimately have "\<lfloor>(1 / x) / 2\<rfloor> < \<lfloor>1 / x\<rfloor>" "0 < \<lfloor>1 / x\<rfloor>"
      by blast+
    then have "\<lfloor>1 / (2 * x)\<rfloor> < \<lfloor>1 / x\<rfloor>" "0 < \<lfloor>1 / x\<rfloor>"
      by (simp_all only: inv)
    then show ?thesis
      using False lt by simp
  qed
qed

declare expo.simps [simp del]

text \<open>Rounding to the nearest integer, ties to the even one.\<close>

definition rhe :: "rat \<Rightarrow> int" where
  "rhe q =
     (let f = \<lfloor>q\<rfloor>; d = q - of_int f
      in if d < 1 / 2 then f else if 1 / 2 < d then f + 1 else if even f then f else f + 1)"

definition fl :: "rat \<Rightarrow> rat" where
  "fl x = (if x = 0 then 0
           else let u = 2 powi (expo \<bar>x\<bar> - 52) in of_int (rhe (x / u)) * u)"

text \<open>\<open>round(x, 2)\<close>: the decimal with two places nearest to \<open>x\<close>, read back as a float.\<close>

definition round2 :: "rat \<Rightarrow> rat" where
  "round2 x = fl (of_int (rhe (x * 100)) / 100)"

section \<open>The similarity scorer\<close>

subsection \<open>\<open>str.lower\<close> and \<open>re.findall(r"\w+", s)\<close>\<close>

definition lower_char :: "char \<Rightarrow> char" where
  "lower_char c =
     (let n = (of_char c :: nat) in
      if (65 \<le> n \<and> n \<le> 90) \<or> (192 \<le> n \<and> n \<le> 222 \<and> n \<noteq> 215) then char_of (n + 32) else c)"

definition lower :: "string \<Rightarrow> string" where
  "lower s = map lower_char s"

text \<open>The characters \<open>\w\<close> matches: letters, digits and the underscore.\<close>

definition is_word :: "char \<Rightarrow> bool" where
  "is_word c =
     (let n = (of_char c :: nat) in
      (48 \<le> n \<and> n \<le> 57) \<or> (65 \<le> n \<and> n \<le> 90) \<or> n = 95 \<or> (97 \<le> n \<and> n \<le> 122) \<or>
      n = 170 \<or> n = 178 \<or> n = 179 \<or> n = 181 \<or> n = 185 \<or> n = 186 \<or>
      (188 \<le> n \<and> n \<le> 190) \<or> (192 \<le> n \<and> n \<le> 214) \<or> (216 \<le> n \<and> n \<le> 246) \<or> 248 \<le> n)"

text \<open>
  The maximal runs of word characters, left to right; \<open>cur\<close> holds the run being read,
  last character first.
\<close>

fun scan_words :: "string \<Rightarrow> string \<Rightarrow> string list" where
  "scan_words cur [] = (if cur = [] then [] else [rev cur])"
| "scan_words cur (c # cs) =
     (if is_word c then scan_words (c # cur) cs
      else if cur = [] then scan_words [] cs
      else rev cur # scan_words [] cs)"

definition findall_words :: "string \<Rightarrow> string list" where
  "findall_words s = scan_words [] s"

subsection \<open>\<open>difflib.SequenceMatcher(None, a, b).ratio()\<close>\<close>

text \<open>
  The matcher is built with \<open>isjunk = None\<close> and \<open>autojunk = True\<close>: no element is junk,
  and in a second sequence of 200 elements or more the elements that occur more than
  \<open>n // 100 + 1\<close> times are dropped from the index \<open>b2j\<close>.
\<close>

text \<open>\<open>b2j.setdefault(elt, []).append(i)\<close>\<close>

definition setdefault_append :: "nat \<times> 'a \<Rightarrow> ('a \<rightharpoonup> nat list) \<Rightarrow> ('a \<rightharpoonup> nat list)" where
  "setdefault_append p b2j =
     (case p of (i, elt) \<Rightarrow> b2j(elt \<mapsto> (case b2j elt of None \<Rightarrow> [] | Some indices \<Rightarrow> indices) @ [i]))"

definition chain_b :: "'a list \<Rightarrow> ('a \<rightharpoonup> nat list)" where
  "chain_b b =
     (let b2j = fold setdefault_append (enumerate 0 b) Map.empty;
          n = length b
      in if 200 \<le> n
         then (let ntest = n div 100 + 1
               in (\<lambda>elt. case b2j elt of None \<Rightarrow> None
                         | Some idxs \<Rightarrow> if ntest < length idxs then None else Some idxs))
         else b2j)"

text \<open>\<open>j2len.get(j - 1, 0)\<close>; the key \<open>-1\<close> is never in the dict.\<close>

definition j2lenget :: "(nat \<rightharpoonup> nat) \<Rightarrow> nat \<Rightarrow> nat" where
  "j2lenget j2len j =
     (case j of 0 \<Rightarrow> 0 | Suc j' \<Rightarrow> (case j2len j' of None \<Rightarrow> 0 | Some k \<Rightarrow> k))"

text \<open>
  The loop over the positions \<open>j\<close> of \<open>a[i]\<close> in \<open>b\<close>. The state is \<open>newj2len\<close> and the best
  block \<open>(besti, bestj, bestsize)\<close>; \<open>k\<close> never exceeds \<open>i + 1\<close> and \<open>j + 1\<close>, so the
  differences \<open>i - k + 1\<close> and \<open>j - k + 1\<close> are written \<open>i + 1 - k\<close> and \<open>j + 1 - k\<close>.
\<close>

fun flm_inner ::
  "nat \<Rightarrow> nat \<Rightarrow> nat \<Rightarrow> (nat \<rightharpoonup> nat) \<Rightarrow> nat list \<Rightarrow>
   (nat \<rightharpoonup> nat) \<times> nat \<times> nat \<times> nat \<Rightarrow> (nat \<rightharpoonup> nat) \<times> nat \<times> nat \<times> nat" where
  "flm_inner i blo bhi j2len [] st = st"
| "flm_inner i blo bhi j2len (j # js) (newj2len, besti, bestj, bestsize) =
     (if j < blo then flm_inner i blo bhi j2len js (newj2len, besti, bestj, bestsize)
      else if bhi \<le> j then (newj2len, besti, bestj, bestsize)
      else let k = j2lenget j2len j + 1
           in if bestsize < k
              then flm_inner i blo bhi j2len js (newj2len(j \<mapsto> k), i + 1 - k, j + 1 - k, k)
              else flm_inner i blo bhi j2len js (newj2len(j \<mapsto> k), besti, bestj, bestsize))"

text \<open>The loop \<open>for i in range(alo, ahi)\<close>.\<close>

fun flm_outer ::
  "'a list \<Rightarrow> ('a \<rightharpoonup> nat list) \<Rightarrow> nat \<Rightarrow> nat \<Rightarrow> nat list \<Rightarrow>
   (nat \<rightharpoonup> nat) \<times> nat \<times> nat \<times> nat \<Rightarrow> (nat \<rightharpoonup> nat) \<times> nat \<times> nat \<times> nat" where
  "flm_outer a b2j blo bhi [] st = st"
| "flm_outer a b2j blo bhi (i # is) (j2len, best) =
     flm_outer a b2j blo bhi is
       (flm_inner i blo bhi j2len (case b2j (a ! i) of None \<Rightarrow> [] | Some js \<Rightarrow> js) (Map.empty, best))"

text \<open>
  The two loops that extend the best block by equal elements on each end. No element is
  junk, so the two further loops of the source, which extend by junk only, do nothing.
\<close>

function extend_left :: "'a list \<Rightarrow> 'a list \<Rightarrow> nat \<Rightarrow> nat \<Rightarrow> nat \<times> nat \<times> nat \<Rightarrow> nat \<times> nat \<times> nat" where
  "extend_left a b alo blo (besti, bestj, bestsize) =
     (if alo < besti \<and> blo < bestj \<and> a ! (besti - 1) = b ! (bestj - 1)
      then extend_left a b alo blo (besti - 1, bestj - 1, bestsize + 1)
      else (besti, bestj, bestsize))"
  by pat_completeness auto
termination
  by (relation "measure (\<lambda>(a, b, alo, blo, besti, bestj, bestsize). besti)") auto

function extend_right :: "'a list \<Rightarrow> 'a list \<Rightarrow> nat \<Rightarrow> nat \<Rightarrow> nat \<times> nat \<times> nat \<Rightarrow> nat \<times> nat \<times> nat" where
  "extend_right a b ahi bhi (besti, bestj, bestsize) =
     (if besti + bestsize < ahi \<and> bestj + bestsize < bhi \<and> a ! (besti + bestsize) = b ! (bestj + bestsize)
      then extend_right a b ahi bhi (besti, bestj, bestsize + 1)
      else (besti, bestj, bestsize))"
  by pat_completeness auto
termination
  by (relation "measure (\<lambda>(a, b, ahi, bhi, besti, bestj, bestsize). ahi - (besti + bestsize))") auto

declare extend_left.simps [simp del] extend_right.simps [simp del]

definition find_longest_match ::
  "'a list \<Rightarrow> 'a list \<Rightarrow> ('a \<rightharpoonup> nat list) \<Rightarrow> nat \<Rightarrow> nat \<Rightarrow> nat \<Rightarrow> nat \<Rightarrow> nat \<times> nat \<times> nat" where
  "find_longest_match a b b2j alo ahi blo bhi =
     extend_right a b ahi bhi
       (extend_left a b alo blo
         (snd (flm_outer a b2j blo bhi [alo..<ahi] (Map.empty, alo, blo, 0))))"

text \<open>
  The block \<open>find_longest_match\<close> returns lies inside \<open>a[alo:ahi]\<close>, whatever the
  sequences hold; the loop of \<open>get_matching_blocks\<close> terminates for that reason.
\<close>

lemma flm_inner_bounds:
  assumes "flm_inner i blo bhi j2len js (new, besti, bestj, bestsize) = (new', besti', bestj', bestsize')"
    and "\<forall>j k. j2len j = Some k \<longrightarrow> k + alo \<le> i"
    and "alo \<le> i"
    and "alo \<le> besti" "besti + bestsize \<le> i + 1"
    and "\<forall>j k. new j = Some k \<longrightarrow> k + alo \<le> i + 1"
  shows "alo \<le> besti' \<and> besti' + bestsize' \<le> i + 1 \<and> (\<forall>j k. new' j = Some k \<longrightarrow> k + alo \<le> i + 1)"
  using assms
proof (induction js arbitrary: new besti bestj bestsize)
  case Nil
  then show ?case by simp
next
  case (Cons j js)
  have get: "j2lenget j2len j + alo \<le> i"
    using Cons.prems(2,3) by (auto simp: j2lenget_def split: nat.splits option.splits)
  show ?case
  proof (cases "j < blo")
    case True
    with Cons show ?thesis by simp
  next
    case lo: False
    show ?thesis
    proof (cases "bhi \<le> j")
      case True
      with lo Cons.prems show ?thesis by simp
    next
      case hi: False
      let ?k = "j2lenget j2len j + 1"
      have new: "\<forall>j' k. (new(j \<mapsto> ?k)) j' = Some k \<longrightarrow> k + alo \<le> i + 1"
        using Cons.prems(6) get by auto
      show ?thesis
      proof (cases "bestsize < ?k")
        case True
        then have run: "flm_inner i blo bhi j2len js (new(j \<mapsto> ?k), i + 1 - ?k, j + 1 - ?k, ?k)
            = (new', besti', bestj', bestsize')"
          using Cons.prems(1) lo hi by (simp add: Let_def)
        show ?thesis
          by (rule Cons.IH [OF run Cons.prems(2,3) _ _ new]) (use get in auto)
      next
        case False
        then have run: "flm_inner i blo bhi j2len js (new(j \<mapsto> ?k), besti, bestj, bestsize)
            = (new', besti', bestj', bestsize')"
          using Cons.prems(1) lo hi by (simp add: Let_def)
        show ?thesis
          by (rule Cons.IH [OF run Cons.prems(2,3,4,5) new])
      qed
    qed
  qed
qed

lemma flm_outer_bounds:
  assumes "flm_outer a b2j blo bhi [i..<ahi] (j2len, besti, bestj, bestsize) = (j2len', besti', bestj', bestsize')"
    and "\<forall>j k. j2len j = Some k \<longrightarrow> k + alo \<le> i"
    and "alo \<le> i" "i \<le> ahi"
    and "alo \<le> besti" "besti + bestsize \<le> i"
  shows "alo \<le> besti' \<and> besti' + bestsize' \<le> ahi"
  using assms
proof (induction "ahi - i" arbitrary: i j2len besti bestj bestsize)
  case 0
  then show ?case by simp
next
  case (Suc n)
  then have lt: "i < ahi" by simp
  obtain new bi bj bs where inner:
    "flm_inner i blo bhi j2len (case b2j (a ! i) of None \<Rightarrow> [] | Some js \<Rightarrow> js) (Map.empty, besti, bestj, bestsize)
       = (new, bi, bj, bs)"
    by (metis prod_cases4)
  have step: "alo \<le> bi \<and> bi + bs \<le> i + 1 \<and> (\<forall>j k. new j = Some k \<longrightarrow> k + alo \<le> i + 1)"
    by (rule flm_inner_bounds [OF inner Suc.prems(2,3)]) (use Suc.prems in auto)
  have run: "flm_outer a b2j blo bhi [Suc i..<ahi] (new, bi, bj, bs) = (j2len', besti', bestj', bestsize')"
    using Suc.prems(1) lt inner by (simp add: upt_conv_Cons)
  show ?case
    by (rule Suc.hyps(1) [OF _ run]) (use Suc.hyps(2) Suc.prems step lt in auto)
qed

lemma extend_left_bounds:
  "extend_left a b alo blo (besti, bestj, bestsize) = (i, j, k) \<Longrightarrow> alo \<le> besti \<Longrightarrow>
   alo \<le> i \<and> i + k = besti + bestsize \<and> bestsize \<le> k"
proof (induction a b alo blo "(besti, bestj, bestsize)" arbitrary: besti bestj bestsize
    rule: extend_left.induct)
  case (1 a b alo blo besti bestj bestsize)
  show ?case
  proof (cases "alo < besti \<and> blo < bestj \<and> a ! (besti - 1) = b ! (bestj - 1)")
    case True
    then have "extend_left a b alo blo (besti - 1, bestj - 1, bestsize + 1) = (i, j, k)"
      using "1.prems"(1) by (simp add: extend_left.simps [of a b alo blo besti])
    moreover have "alo \<le> besti - 1"
      using True by arith
    ultimately have "alo \<le> i \<and> i + k = besti - 1 + (bestsize + 1) \<and> bestsize + 1 \<le> k"
      by (rule "1.hyps" [OF True])
    with True show ?thesis by auto
  next
    case False
    then show ?thesis
      using "1.prems" by (auto simp: extend_left.simps [of a b alo blo besti])
  qed
qed

lemma extend_right_bounds:
  "extend_right a b ahi bhi (besti, bestj, bestsize) = (i, j, k) \<Longrightarrow>
   i = besti \<and> bestsize \<le> k \<and> (k = bestsize \<or> i + k \<le> ahi)"
proof (induction a b ahi bhi "(besti, bestj, bestsize)" arbitrary: besti bestj bestsize
    rule: extend_right.induct)
  case (1 a b ahi bhi besti bestj bestsize)
  show ?case
  proof (cases "besti + bestsize < ahi \<and> bestj + bestsize < bhi \<and> a ! (besti + bestsize) = b ! (bestj + bestsize)")
    case True
    then have "extend_right a b ahi bhi (besti, bestj, bestsize + 1) = (i, j, k)"
      using "1.prems"(1) by (simp add: extend_right.simps [of a b ahi bhi besti])
    from "1.hyps" [OF True this] True show ?thesis by auto
  next
    case False
    then show ?thesis
      using "1.prems" by (auto simp: extend_right.simps [of a b ahi bhi besti])
  qed
qed

lemma find_longest_match_bounds:
  assumes "find_longest_match a b b2j alo ahi blo bhi = (i, j, k)" and "k \<noteq> 0"
  shows "alo \<le> i \<and> i + k \<le> ahi"
proof -
  obtain m bi bj bs where outer:
    "flm_outer a b2j blo bhi [alo..<ahi] (Map.empty, alo, blo, 0) = (m, bi, bj, bs)"
    by (metis prod_cases4)
  obtain li lj lk where left: "extend_left a b alo blo (bi, bj, bs) = (li, lj, lk)"
    by (metis prod_cases3)
  have right: "extend_right a b ahi bhi (li, lj, lk) = (i, j, k)"
    using assms(1) outer left by (simp add: find_longest_match_def)
  show ?thesis
  proof (cases "alo \<le> ahi")
    case True
    have "alo \<le> bi \<and> bi + bs \<le> ahi"
      by (rule flm_outer_bounds [OF outer]) (use True in auto)
    with extend_left_bounds [OF left] extend_right_bounds [OF right] show ?thesis
      by auto
  next
    case False
    then have "bi = alo" "bs = 0"
      using outer by auto
    then have "li = alo" "lk = 0"
      using left by (auto simp: extend_left.simps [of a b alo blo alo])
    then have "k = 0"
      using right False by (auto simp: extend_right.simps [of a b ahi bhi alo])
    with assms(2) show ?thesis by simp
  qed
qed

text \<open>
  The loop \<open>while queue\<close> of \<open>get_matching_blocks\<close>. The queue is a stack: \<open>pop()\<close> takes
  and \<open>append\<close> puts at the end of the Python list, which is the head here.
\<close>

function gmb_loop ::
  "'a list \<Rightarrow> 'a list \<Rightarrow> ('a \<rightharpoonup> nat list) \<Rightarrow> (nat \<times> nat \<times> nat \<times> nat) list \<Rightarrow>
   (nat \<times> nat \<times> nat) list \<Rightarrow> (nat \<times> nat \<times> nat) list" where
  "gmb_loop a b b2j [] matching_blocks = matching_blocks"
| "gmb_loop a b b2j ((alo, ahi, blo, bhi) # queue) matching_blocks =
     (case find_longest_match a b b2j alo ahi blo bhi of
        (i, j, k) \<Rightarrow>
          if k \<noteq> 0
          then gmb_loop a b b2j
                 ((if i + k < ahi \<and> j + k < bhi then [(i + k, ahi, j + k, bhi)] else []) @
                  (if alo < i \<and> blo < j then [(alo, i, blo, j)] else []) @ queue)
                 (matching_blocks @ [(i, j, k)])
          else gmb_loop a b b2j queue matching_blocks)"
  by pat_completeness auto
termination
proof (relation "measure (\<lambda>(a, b, b2j, queue, mb). \<Sum>(alo, ahi, blo, bhi) \<leftarrow> queue. 2 * (ahi - alo) + 1)")
  show "wf (measure (\<lambda>(a :: 'a list, b :: 'a list, b2j :: 'a \<rightharpoonup> nat list, queue, mb :: (nat \<times> nat \<times> nat) list).
      \<Sum>(alo, ahi, blo, bhi) \<leftarrow> queue. 2 * (ahi - alo) + 1))"
    by simp
next
  fix a b :: "'a list" and b2j :: "'a \<rightharpoonup> nat list" and alo ahi blo bhi :: nat
    and queue :: "(nat \<times> nat \<times> nat \<times> nat) list" and matching_blocks :: "(nat \<times> nat \<times> nat) list"
    and i y j k
  assume "(i, y) = find_longest_match a b b2j alo ahi blo bhi" "(j, k) = y" "k \<noteq> 0"
  then have "find_longest_match a b b2j alo ahi blo bhi = (i, j, k)"
    by simp
  from find_longest_match_bounds [OF this \<open>k \<noteq> 0\<close>] \<open>k \<noteq> 0\<close>
  show "((a, b, b2j,
          (if i + k < ahi \<and> j + k < bhi then [(i + k, ahi, j + k, bhi)] else []) @
          (if alo < i \<and> blo < j then [(alo, i, blo, j)] else []) @ queue,
          matching_blocks @ [(i, j, k)]),
         (a, b, b2j, (alo, ahi, blo, bhi) # queue, matching_blocks))
        \<in> measure (\<lambda>(a, b, b2j, queue, mb). \<Sum>(alo, ahi, blo, bhi) \<leftarrow> queue. 2 * (ahi - alo) + 1)"
    by auto
next
  fix a b :: "'a list" and b2j :: "'a \<rightharpoonup> nat list" and alo ahi blo bhi :: nat
    and queue :: "(nat \<times> nat \<times> nat \<times> nat) list" and matching_blocks :: "(nat \<times> nat \<times> nat) list"
  show "((a, b, b2j, queue, matching_blocks), (a, b, b2j, (alo, ahi, blo, bhi) # queue, matching_blocks))
        \<in> measure (\<lambda>(a, b, b2j, queue, mb). \<Sum>(alo, ahi, blo, bhi) \<leftarrow> queue. 2 * (ahi - alo) + 1)"
    by simp
qed

declare gmb_loop.simps [simp del]

text \<open>
  The loop that merges adjacent blocks of the sorted list; \<open>(i1, j1, k1)\<close> is the block
  being grown and \<open>non_adjacent\<close> the blocks already emitted.
\<close>

fun collapse ::
  "nat \<times> nat \<times> nat \<Rightarrow> (nat \<times> nat \<times> nat) list \<Rightarrow> (nat \<times> nat \<times> nat) list \<Rightarrow> (nat \<times> nat \<times> nat) list" where
  "collapse (i1, j1, k1) [] non_adjacent =
     (if k1 \<noteq> 0 then non_adjacent @ [(i1, j1, k1)] else non_adjacent)"
| "collapse (i1, j1, k1) ((i2, j2, k2) # rest) non_adjacent =
     (if i1 + k1 = i2 \<and> j1 + k1 = j2
      then collapse (i1, j1, k1 + k2) rest non_adjacent
      else collapse (i2, j2, k2) rest
             (if k1 \<noteq> 0 then non_adjacent @ [(i1, j1, k1)] else non_adjacent))"

definition get_matching_blocks :: "'a list \<Rightarrow> 'a list \<Rightarrow> (nat \<times> nat \<times> nat) list" where
  "get_matching_blocks a b =
     (let la = length a; lb = length b;
          matching_blocks = gmb_loop a b (chain_b b) [(0, la, 0, lb)] []
      in collapse (0, 0, 0) (sort matching_blocks) [] @ [(la, lb, 0)])"

text \<open>\<open>_calculate_ratio(matches, length)\<close>: \<open>2.0 * matches / length\<close> in floats.\<close>

definition calculate_ratio :: "nat \<Rightarrow> nat \<Rightarrow> rat" where
  "calculate_ratio matches len =
     (if len \<noteq> 0 then fl (fl (2 * fl (of_nat matches)) / fl (of_nat len)) else 1)"

definition ratio :: "'a list \<Rightarrow> 'a list \<Rightarrow> rat" where
  "ratio a b =
     calculate_ratio (sum_list (map (\<lambda>(i, j, k). k) (get_matching_blocks a b))) (length a + length b)"

subsection \<open>\<open>token_similarity\<close>\<close>

text \<open>The two local values \<open>overlap\<close> and \<open>char_sim\<close>, and the result.\<close>

definition overlap :: "string \<Rightarrow> string \<Rightarrow> rat" where
  "overlap a b =
     (let a_tokens = set (findall_words (lower a));
          b_tokens = set (findall_words (lower b))
      in fl (of_nat (card (a_tokens \<inter> b_tokens)) / of_nat (max (card (a_tokens \<union> b_tokens)) 1)))"

definition char_sim :: "string \<Rightarrow> string \<Rightarrow> rat" where
  "char_sim a b = ratio (lower a) (lower b)"

definition token_similarity :: "string \<Rightarrow> string \<Rightarrow> rat" where
  "token_similarity a b = fl (fl (overlap a b + char_sim a b) / 2)"

text \<open>The call as the program makes it: both arguments need the method \<open>lower\<close>.\<close>

fun py_token_similarity :: "pyval \<Rightarrow> pyval \<Rightarrow> error + rat" where
  "py_token_similarity (PStr a) (PStr b) = Inr (token_similarity a b)"
| "py_token_similarity _ _ = Inl AttributeError"

section \<open>The reconciler\<close>

text \<open>A row of the result; the fields are the columns \<open>"PO Item"\<close>, ..., \<open>"Match Score"\<close>.\<close>

record comparison_row =
  PO_Item :: pyval
  PO_Qty :: pyval
  PO_Price :: pyval
  PO_Total :: pyval
  Invoice_Item :: pyval
  Invoice_Qty :: pyval
  Invoice_Price :: pyval
  Invoice_Total :: pyval
  Status :: string
  Match_Score :: rat

text \<open>\<open>struct.get("items", []) if struct else []\<close>\<close>

definition get_items :: "pyval \<Rightarrow> error + pyval" where
  "get_items struct = (if truthy struct then py_get struct ''items'' (PList []) else Inr (PList []))"

text \<open>\<open>inv_it.get(key, "") if inv_it else ""\<close>\<close>

definition get_or_blank :: "pyval \<Rightarrow> string \<Rightarrow> error + pyval" where
  "get_or_blank inv_it key = (if truthy inv_it then py_get inv_it key (PStr []) else Inr (PStr []))"

text \<open>The score of one pair of items, as lines 87 to 89 compute it.\<close>

definition pair_score :: "pyval \<Rightarrow> pyval \<Rightarrow> error + rat" where
  "pair_score po_it inv_it =
     bind_err (py_get po_it ''description'' (PStr [])) (\<lambda>a.
     bind_err (py_get inv_it ''description'' (PStr [])) (\<lambda>b.
     py_token_similarity a b))"

text \<open>
  The inner loop over \<open>enumerate(inv_items)\<close>; the state is
  \<open>(best_match, best_score, best_idx)\<close>, with \<open>PNone\<close> and \<open>None\<close> for Python's \<open>None\<close>.
\<close>

fun find_best ::
  "nat set \<Rightarrow> pyval \<Rightarrow> (nat \<times> pyval) list \<Rightarrow> pyval \<times> rat \<times> nat option \<Rightarrow>
   error + pyval \<times> rat \<times> nat option" where
  "find_best inv_used po_it [] st = Inr st"
| "find_best inv_used po_it ((idx, inv_it) # rest) (best_match, best_score, best_idx) =
     (if idx \<in> inv_used then find_best inv_used po_it rest (best_match, best_score, best_idx)
      else case pair_score po_it inv_it of Inl e \<Rightarrow> Inl e
           | Inr score \<Rightarrow>
             if best_score < score then find_best inv_used po_it rest (inv_it, score, Some idx)
             else find_best inv_used po_it rest (best_match, best_score, best_idx))"

text \<open>
  The body of the loop over the purchase-order items, for one item. It returns the index
  the item claims (the \<open>best_idx\<close> that line 97 adds to \<open>inv_used\<close>, if it does), the row
  and the new \<open>inv_used\<close>.
\<close>

definition po_step ::
  "rat \<Rightarrow> pyval \<Rightarrow> nat set \<Rightarrow> pyval \<Rightarrow> error + nat option \<times> comparison_row \<times> nat set" where
  "po_step item_match_threshold inv_items inv_used po_it =
     bind_err (py_iter inv_items) (\<lambda>inv_list.
     bind_err (find_best inv_used po_it (enumerate 0 inv_list) (PNone, 0, None))
       (\<lambda>(best_match, best_score, best_idx).
     let claimed = (if best_idx \<noteq> None \<and> item_match_threshold \<le> best_score then best_idx else None);
         inv_used' = (case claimed of None \<Rightarrow> inv_used | Some idx \<Rightarrow> insert idx inv_used);
         inv_it = best_match
     in
     bind_err (py_get po_it ''qty'' (PStr [])) (\<lambda>po_qty.
     bind_err (get_or_blank inv_it ''qty'') (\<lambda>inv_qty.
     bind_err (py_get po_it ''unit_price'' (PStr [])) (\<lambda>po_price.
     bind_err (get_or_blank inv_it ''unit_price'') (\<lambda>inv_price.
     bind_err (py_get po_it ''total'' (PStr [])) (\<lambda>po_total.
     bind_err (get_or_blank inv_it ''total'') (\<lambda>inv_total.
     let status =
           (if item_match_threshold \<le> best_score \<and> py_str po_total = py_str inv_total then ''Match''
            else if item_match_threshold \<le> best_score then ''Partial Match''
            else ''Mismatch'')
     in
     bind_err (py_get po_it ''description'' (PStr [])) (\<lambda>po_desc.
     bind_err (get_or_blank inv_it ''description'') (\<lambda>inv_desc.
     Inr (claimed,
          \<lparr>PO_Item = po_desc, PO_Qty = po_qty, PO_Price = po_price, PO_Total = po_total,
           Invoice_Item = inv_desc, Invoice_Qty = inv_qty, Invoice_Price = inv_price,
           Invoice_Total = inv_total, Status = status, Match_Score = round2 best_score\<rparr>,
          inv_used')))))))))))"

text \<open>
  The loop over the purchase-order items: the rows in order, each with the index its item
  claimed, and the final \<open>inv_used\<close>.
\<close>

fun po_loop ::
  "rat \<Rightarrow> pyval \<Rightarrow> nat set \<Rightarrow> pyval list \<Rightarrow> error + (nat option \<times> comparison_row) list \<times> nat set" where
  "po_loop item_match_threshold inv_items inv_used [] = Inr ([], inv_used)"
| "po_loop item_match_threshold inv_items inv_used (po_it # po_rest) =
     (case po_step item_match_threshold inv_items inv_used po_it of Inl e \<Rightarrow> Inl e
      | Inr (claimed, row, inv_used') \<Rightarrow>
      case po_loop item_match_threshold inv_items inv_used' po_rest of Inl e \<Rightarrow> Inl e
      | Inr (rows, inv_used'') \<Rightarrow> Inr ((claimed, row) # rows, inv_used''))"

text \<open>The row of an invoice item that no purchase-order item claimed.\<close>

definition unmatched_row :: "pyval \<Rightarrow> error + comparison_row" where
  "unmatched_row inv_it =
     bind_err (py_get inv_it ''description'' (PStr [])) (\<lambda>inv_desc.
     bind_err (py_get inv_it ''qty'' (PStr [])) (\<lambda>inv_qty.
     bind_err (py_get inv_it ''unit_price'' (PStr [])) (\<lambda>inv_price.
     bind_err (py_get inv_it ''total'' (PStr [])) (\<lambda>inv_total.
     Inr \<lparr>PO_Item = PStr [], PO_Qty = PStr [], PO_Price = PStr [], PO_Total = PStr [],
          Invoice_Item = inv_desc, Invoice_Qty = inv_qty, Invoice_Price = inv_price,
          Invoice_Total = inv_total, Status = ''Mismatch'', Match_Score = 0\<rparr>))))"

fun unmatched_rows :: "nat set \<Rightarrow> (nat \<times> pyval) list \<Rightarrow> error + comparison_row list" where
  "unmatched_rows inv_used [] = Inr []"
| "unmatched_rows inv_used ((idx, inv_it) # rest) =
     (if idx \<notin> inv_used
      then case unmatched_row inv_it of Inl e \<Rightarrow> Inl e | Inr row \<Rightarrow>
           case unmatched_rows inv_used rest of Inl e \<Rightarrow> Inl e | Inr rows \<Rightarrow> Inr (row # rows)
      else unmatched_rows inv_used rest)"

text \<open>
  \<open>reconcile\<close> is the body of \<open>compare_structures\<close> up to its last line: it returns the
  list \<open>rows\<close> that the two loops build, each row with the index it claimed (\<open>None\<close> for
  the rows that claimed nothing and for the trailing rows).
\<close>

definition reconcile ::
  "pyval \<Rightarrow> pyval \<Rightarrow> rat \<Rightarrow> error + (nat option \<times> comparison_row) list" where
  "reconcile po_struct inv_struct item_match_threshold =
     bind_err (get_items po_struct) (\<lambda>po_items.
     bind_err (get_items inv_struct) (\<lambda>inv_items.
     bind_err (py_iter po_items) (\<lambda>po_list.
     bind_err (po_loop item_match_threshold inv_items {} po_list) (\<lambda>(rows, inv_used).
     bind_err (py_iter inv_items) (\<lambda>inv_list.
     bind_err (unmatched_rows inv_used (enumerate 0 inv_list)) (\<lambda>rest.
     Inr (rows @ map (Pair None) rest)))))))"

text \<open>
  The last line returns \<open>pd.DataFrame(rows)\<close>. The frame constructor belongs to pandas,
  not to the program, and it converts the cells of a column to the type it infers for the
  column, so the cells of the frame need not be the values of the rows. It is taken as the
  parameter \<open>DataFrame\<close>, of which nothing is assumed, and the frames are the values of
  a type variable.
\<close>

definition compare_structures ::
  "(comparison_row list \<Rightarrow> error + 'frame) \<Rightarrow> pyval \<Rightarrow> pyval \<Rightarrow> rat \<Rightarrow> error + 'frame" where
  "compare_structures DataFrame po_struct inv_struct item_match_threshold =
     bind_err (reconcile po_struct inv_struct item_match_threshold)
       (\<lambda>rows. DataFrame (map snd rows))"

section \<open>The specification's reading of a result\<close>

text \<open>
  These definitions follow the words of the specification, not the code; the theorems
  below compare them with \<open>find_best\<close>, \<open>po_step\<close> and \<open>reconcile\<close>. The candidates of a
  purchase-order item are the invoice items whose index is not claimed yet, in input order.
  The best score is the maximum of the candidates' scores and \<open>0\<close>. The selected candidate
  is the first one that reaches the best score, when that score is above \<open>0\<close>. The claims
  of a list of rows are the indices its rows claimed, in order.
\<close>

definition unclaimed :: "nat set \<Rightarrow> pyval list \<Rightarrow> (nat \<times> pyval) list" where
  "unclaimed inv_used inv_list = filter (\<lambda>c. fst c \<notin> inv_used) (enumerate 0 inv_list)"

definition scores :: "pyval \<Rightarrow> (nat \<times> pyval) list \<Rightarrow> rat list" where
  "scores po_it cs = map (\<lambda>c. projr (pair_score po_it (snd c))) cs"

definition best_of :: "pyval \<Rightarrow> (nat \<times> pyval) list \<Rightarrow> rat" where
  "best_of po_it cs = Max (insert 0 (set (scores po_it cs)))"

definition selected :: "pyval \<Rightarrow> (nat \<times> pyval) list \<Rightarrow> (nat \<times> pyval) option" where
  "selected po_it cs =
     (if 0 < best_of po_it cs
      then find (\<lambda>c. pair_score po_it (snd c) = Inr (best_of po_it cs)) cs
      else None)"

definition claims :: "(nat option \<times> 'a) list \<Rightarrow> nat list" where
  "claims rows = List.map_filter fst rows"

definition items_of :: "pyval \<Rightarrow> error + pyval list" where
  "items_of struct = bind_err (get_items struct) py_iter"

text \<open>
  A document struct is missing its items when it is null or an object without the key
  \<open>items\<close>. What the reconciler needs of a document struct that it is given is that its
  \<open>items\<close>, when present, is a sequence of objects.
\<close>

fun missing_items :: "pyval \<Rightarrow> bool" where
  "missing_items PNone = True"
| "missing_items (PDict kvs) = (map_of kvs ''items'' = None)"
| "missing_items _ = False"

fun is_object :: "pyval \<Rightarrow> bool" where
  "is_object (PDict kvs) = True"
| "is_object _ = False"

fun document :: "pyval \<Rightarrow> bool" where
  "document PNone = True"
| "document (PDict kvs) =
     (case map_of kvs ''items'' of
        None \<Rightarrow> True
      | Some (PList xs) \<Rightarrow> list_all is_object xs
      | Some _ \<Rightarrow> False)"
| "document _ = False"

text \<open>The number of rows with status \<open>Match\<close> or \<open>Partial Match\<close>, and with status \<open>Mismatch\<close>.\<close>

definition matched_count :: "(nat option \<times> comparison_row) list \<Rightarrow> nat" where
  "matched_count rows =
     length (filter (\<lambda>r. Status (snd r) = ''Match'' \<or> Status (snd r) = ''Partial Match'') rows)"

definition mismatch_count :: "(nat option \<times> comparison_row) list \<Rightarrow> nat" where
  "mismatch_count rows = length (filter (\<lambda>r. Status (snd r) = ''Mismatch'') rows)"

section \<open>Lemmas on the floating-point model\<close>

lemma expo_bounds:
  "0 < x \<Longrightarrow> 2 powi expo x \<le> x \<and> x < 2 powi (expo x + 1)"
proof (induction x rule: expo.induct)
  case (1 x)
  show ?case
  proof (cases "2 \<le> x")
    case True
    then have e: "expo x = expo (x / 2) + 1"
      using "1.prems" by (simp add: expo.simps [of x])
    have "2 powi expo (x / 2) \<le> x / 2 \<and> x / 2 < 2 powi (expo (x / 2) + 1)"
      using "1.IH"(1) "1.prems" True by simp
    then show ?thesis
      unfolding e by (simp add: power_int_add)
  next
    case ge: False
    show ?thesis
    proof (cases "x < 1")
      case True
      then have e: "expo x = expo (2 * x) - 1"
        using "1.prems" ge by (simp add: expo.simps [of x])
      have "2 powi expo (2 * x) \<le> 2 * x \<and> 2 * x < 2 powi (expo (2 * x) + 1)"
        using "1.IH"(2) "1.prems" ge True by simp
      then show ?thesis
        unfolding e by (simp add: power_int_add power_int_diff)
    next
      case False
      then have "expo x = 0"
        using "1.prems" ge by (simp add: expo.simps [of x])
      with ge False show ?thesis by simp
    qed
  qed
qed

lemma expo_unique:
  assumes "0 < x" "2 powi e \<le> x" "x < 2 powi (e + 1)"
  shows "expo x = e"
proof (rule ccontr)
  assume ne: "expo x \<noteq> e"
  from expo_bounds [OF assms(1)] have b: "2 powi expo x \<le> x" "x < 2 powi (expo x + 1)"
    by simp_all
  show False
  proof (cases "expo x < e")
    case True
    then have "(2::rat) powi (expo x + 1) \<le> 2 powi e"
      by (intro power_int_increasing) simp_all
    with b assms show False by simp
  next
    case False
    with ne have "(2::rat) powi (e + 1) \<le> 2 powi expo x"
      by (intro power_int_increasing) simp_all
    with b assms show False by simp
  qed
qed

lemma expo_double: "0 < x \<Longrightarrow> expo (2 * x) = expo x + 1"
  using expo_bounds [of x] by (intro expo_unique) (simp_all add: power_int_add)

lemma fl_double: "fl (2 * x) = 2 * fl x"
proof (cases "x = 0")
  case True
  then show ?thesis by (simp add: fl_def)
next
  case False
  define u :: rat where "u = 2 powi (expo \<bar>x\<bar> - 52)"
  have "expo \<bar>2 * x\<bar> = expo \<bar>x\<bar> + 1"
    using False expo_double [of "\<bar>x\<bar>"] by (simp add: abs_mult)
  then have "2 powi (expo \<bar>2 * x\<bar> - 52) = 2 * u"
    by (simp add: u_def power_int_add power_int_diff)
  moreover have "2 * x / (2 * u) = x / u"
    by simp
  ultimately show ?thesis
    using False by (simp add: fl_def Let_def u_def [symmetric])
qed

lemma rhe_of_int: "rhe (of_int m) = m"
  by (simp add: rhe_def)

lemma rhe_numeral: "rhe (numeral n) = numeral n"
  using rhe_of_int [of "numeral n"] by simp

lemma rhe_lower: "of_int k \<le> q \<Longrightarrow> k \<le> rhe q"
proof -
  assume "of_int k \<le> q"
  then have "k \<le> \<lfloor>q\<rfloor>"
    by (simp add: le_floor_iff)
  then show ?thesis
    by (auto simp: rhe_def Let_def)
qed

lemma rhe_upper: "q \<le> of_int k \<Longrightarrow> rhe q \<le> k"
proof -
  assume "q \<le> of_int k"
  then have "\<lfloor>q\<rfloor> \<le> k" "q - of_int \<lfloor>q\<rfloor> > 0 \<Longrightarrow> \<lfloor>q\<rfloor> < k"
    by linarith+
  then show ?thesis
    by (auto simp: rhe_def Let_def)
qed

lemma fl_eq:
  "0 < x \<Longrightarrow> expo x = e \<Longrightarrow> fl x = of_int (rhe (x / 2 powi (e - 52))) * 2 powi (e - 52)"
  by (auto simp: fl_def Let_def)

lemma fl_idem:
  assumes "0 < x"
  shows "fl (fl x) = fl x"
proof -
  define e where "e = expo x"
  define u :: rat where "u = 2 powi (e - 52)"
  define m where "m = rhe (x / u)"
  have u: "0 < u"
    by (simp add: u_def)
  have pe: "2 powi e = 2 ^ 52 * u" "2 powi (e + 1) = 2 ^ 53 * u"
    by (simp_all add: u_def power_int_diff power_int_add)
  from expo_bounds [OF assms] have "2 powi e \<le> x" "x < 2 powi (e + 1)"
    by (simp_all add: e_def)
  then have "2 ^ 52 * u \<le> x" "x < 2 ^ 53 * u"
    by (simp_all add: pe)
  then have q: "of_int (2 ^ 52) \<le> x / u" "x / u \<le> of_int (2 ^ 53)"
    using u by (simp_all add: field_simps)
  have m: "2 ^ 52 \<le> m" "m \<le> 2 ^ 53"
    using rhe_lower [OF q(1)] rhe_upper [OF q(2)] by (simp_all add: m_def)
  have flx: "fl x = of_int m * u"
    using fl_eq [OF assms refl] by (simp only: m_def u_def e_def)
  have pos: "0 < of_int m * u"
    using m u by simp
  show ?thesis
  proof (cases "m < 2 ^ 53")
    case True
    have "(of_int (2 ^ 52) :: rat) \<le> of_int m" "(of_int m :: rat) < of_int (2 ^ 53)"
      using m True by (simp_all only: of_int_le_iff of_int_less_iff)
    then have "2 powi e \<le> of_int m * u" "of_int m * u < 2 powi (e + 1)"
      using u by (simp_all add: pe)
    then have "expo (of_int m * u) = e"
      using pos by (intro expo_unique)
    from fl_eq [OF pos this] have "fl (of_int m * u) = of_int (rhe (of_int m * u / u)) * u"
      by (simp only: u_def)
    also have "of_int m * u / u = (of_int m :: rat)"
      using u by simp
    finally show ?thesis
      by (simp add: flx rhe_of_int)
  next
    case False
    with m have meq: "m = 2 ^ 53" by simp
    have y: "of_int m * u = 2 powi (e + 1)"
      by (simp add: meq pe)
    have "(2::rat) powi (e + 1) < 2 powi (e + 1 + 1)"
      by (intro power_int_strict_increasing) simp_all
    then have "2 powi (e + 1) \<le> of_int m * u" "of_int m * u < 2 powi (e + 1 + 1)"
      by (simp_all only: y order_refl)
    then have "expo (of_int m * u) = e + 1"
      using pos by (intro expo_unique)
    from fl_eq [OF pos this]
    have "fl (of_int m * u) = of_int (rhe (of_int m * u / 2 powi (e + 1 - 52))) * 2 powi (e + 1 - 52)" .
    moreover have "(2::rat) powi (e + 1 - 52) = 2 * u"
      by (simp add: u_def power_int_add power_int_diff)
    ultimately have "fl (of_int m * u) = of_int (rhe (of_int m * u / (2 * u))) * (2 * u)"
      by (simp only:)
    also have "of_int m * u / (2 * u) = (of_int (2 ^ 52) :: rat)"
      using u by (simp add: meq)
    finally show ?thesis
      by (simp add: flx rhe_numeral meq)
  qed
qed

lemma fl_pos: "0 < x \<Longrightarrow> 0 < fl x"
proof -
  assume x: "0 < x"
  define u :: rat where "u = 2 powi (expo x - 52)"
  have u: "0 < u" by (simp add: u_def)
  have "2 powi expo x = 2 ^ 52 * u"
    by (simp add: u_def power_int_diff)
  with expo_bounds [OF x] have "of_int (2 ^ 52) \<le> x / u"
    using u by (simp add: field_simps)
  from rhe_lower [OF this] have "0 < rhe (x / u)" by simp
  then show ?thesis
    using x u by (simp add: fl_def Let_def u_def [symmetric])
qed

lemma fl_values: "fl 0 = 0" "fl 1 = 1" "fl 2 = 2" "fl (1 / 2) = 1 / 2"
  by code_simp+

lemma calculate_ratio_self: "calculate_ratio n (n + n) = 1"
proof (cases "n = 0")
  case True
  then show ?thesis by (simp add: calculate_ratio_def)
next
  case False
  then have pos: "0 < (of_nat n :: rat)" by simp
  have "fl (of_nat (n + n)) = 2 * fl (of_nat n)"
    using fl_double [of "of_nat n"] by simp
  moreover have "fl (2 * fl (of_nat n)) = 2 * fl (of_nat n)"
    by (simp add: fl_double fl_idem [OF pos])
  moreover have "fl (of_nat n) \<noteq> 0"
    using fl_pos [OF pos] by simp
  ultimately show ?thesis
    using False fl_values(2) by (simp add: calculate_ratio_def)
qed

lemma is_word_lower_char: "is_word (lower_char c) = is_word c"
proof -
  have "(of_char c :: nat) < 256"
    by simp
  then show ?thesis
    by (auto simp: is_word_def lower_char_def Let_def)
qed

lemma scan_words_Nil: "scan_words cur s = [] \<longleftrightarrow> cur = [] \<and> \<not> list_ex is_word s"
  by (induction s arbitrary: cur) auto

lemma findall_words_lower_Nil: "findall_words (lower a) = [] \<longleftrightarrow> \<not> list_ex is_word a"
  by (simp add: findall_words_def scan_words_Nil lower_def list_ex_iff is_word_lower_char)

lemma fl_card_ratio: "fl (of_nat n / of_nat (max n 1)) = (if n = 0 then 0 else 1)"
proof (cases "n = 0")
  case True
  then show ?thesis by (simp add: fl_values)
next
  case False
  then have "max n 1 = n" "(of_nat n :: rat) \<noteq> 0"
    by simp_all
  then have "(of_nat n :: rat) / of_nat (max n 1) = 1"
    by simp
  with False show ?thesis by (simp only: fl_values if_False)
qed

lemma overlap_self: "overlap a a = (if list_ex is_word a then 1 else 0)"
proof -
  have "card (set (findall_words (lower a))) = 0 \<longleftrightarrow> \<not> list_ex is_word a"
    by (simp add: findall_words_lower_Nil)
  then show ?thesis
    unfolding overlap_def Let_def Int_absorb Un_absorb fl_card_ratio by auto
qed

section \<open>The matcher on two equal sequences\<close>

text \<open>
  For \<open>ratio(a, a)\<close> the index \<open>b2j\<close> may lack the popular elements, so the first loop
  of \<open>find_longest_match\<close> need not find the whole sequence. It does find a block on the
  diagonal (\<open>besti = bestj\<close>), and the two extension loops then grow that block to all of
  \<open>a\<close>. \<open>run np i\<close> is the length of the run of indexed elements that ends at \<open>i\<close>.
\<close>

definition index_ok :: "'a list \<Rightarrow> ('a \<rightharpoonup> nat list) \<Rightarrow> bool" where
  "index_ok b b2j \<longleftrightarrow>
     (\<forall>elt js. b2j elt = Some js \<longrightarrow> sorted_wrt (<) js \<and> set js = {j. j < length b \<and> b ! j = elt})"

lemma setdefault_append_apply:
  "setdefault_append (i, e) m elt =
     (if elt = e then Some ((case m e of None \<Rightarrow> [] | Some indices \<Rightarrow> indices) @ [i]) else m elt)"
  by (simp add: setdefault_append_def)

lemma fold_setdefault:
  "fold setdefault_append ps m elt =
     (let new = map fst (filter (\<lambda>p. snd p = elt) ps)
      in if new = [] then m elt else Some ((case m elt of None \<Rightarrow> [] | Some indices \<Rightarrow> indices) @ new))"
proof (induction ps arbitrary: m)
  case Nil
  then show ?case by simp
next
  case (Cons p ps)
  obtain i e where p: "p = (i, e)" by (cases p)
  show ?case
    by (cases "e = elt") (simp_all add: p Cons.IH Let_def setdefault_append_apply)
qed

lemma positions_sorted: "sorted_wrt (<) (map fst (filter (\<lambda>p. snd p = elt) (enumerate 0 b)))"
proof -
  have "sorted_wrt (\<lambda>p q. fst p < fst q) (enumerate 0 b)"
    using sorted_wrt_map [of "(<)" fst "enumerate 0 b"] by (simp add: map_fst_enumerate)
  then have "sorted_wrt (\<lambda>p q. fst p < fst q) (filter (\<lambda>p. snd p = elt) (enumerate 0 b))"
    by (rule sorted_wrt_filter)
  then show ?thesis
    by (simp add: sorted_wrt_map)
qed

lemma positions_set:
  "set (map fst (filter (\<lambda>p. snd p = elt) (enumerate 0 b))) = {j. j < length b \<and> b ! j = elt}"
  by (auto simp: in_set_enumerate_eq image_iff)

lemma fold_setdefault_ok:
  assumes "fold setdefault_append (enumerate 0 b) Map.empty elt = Some js"
  shows "sorted_wrt (<) js \<and> set js = {j. j < length b \<and> b ! j = elt}"
proof -
  have js: "js = map fst (filter (\<lambda>p. snd p = elt) (enumerate 0 b))"
    using assms by (simp add: fold_setdefault Let_def split: if_splits)
  show ?thesis
    by (simp only: js positions_sorted positions_set)
qed

lemma index_ok_chain_b: "index_ok b (chain_b b)"
  unfolding index_ok_def
proof (intro allI impI)
  fix elt js
  assume "chain_b b elt = Some js"
  then have "fold setdefault_append (enumerate 0 b) Map.empty elt = Some js"
    by (simp add: chain_b_def Let_def split: if_splits option.splits)
  then show "sorted_wrt (<) js \<and> set js = {j. j < length b \<and> b ! j = elt}"
    by (rule fold_setdefault_ok)
qed

fun run :: "(nat \<Rightarrow> bool) \<Rightarrow> nat \<Rightarrow> nat" where
  "run np 0 = (if np 0 then 1 else 0)"
| "run np (Suc i) = (if np (Suc i) then run np i + 1 else 0)"

definition prev_run :: "(nat \<Rightarrow> bool) \<Rightarrow> nat \<Rightarrow> nat" where
  "prev_run np i = (case i of 0 \<Rightarrow> 0 | Suc i' \<Rightarrow> run np i')"

lemma run_prev: "run np i = (if np i then prev_run np i + 1 else 0)"
  by (cases i) (simp_all add: prev_run_def)

definition row_inv :: "(nat \<Rightarrow> bool) \<Rightarrow> nat \<Rightarrow> (nat \<rightharpoonup> nat) \<times> nat \<times> nat \<times> nat \<Rightarrow> bool" where
  "row_inv np i st \<longleftrightarrow>
     (case st of (j2len, bi, bj, bs) \<Rightarrow>
        bi = bj \<and> (\<forall>i' < i. run np i' \<le> bs) \<and>
        (\<forall>j k. j2len j = Some k \<longrightarrow> k \<le> run np j \<and> k \<le> prev_run np i) \<and>
        (\<forall>i'. i = Suc i' \<longrightarrow> np i' \<longrightarrow> j2len i' = Some (run np i')))"

lemma j2lenget_le:
  assumes "\<forall>j k. j2len j = Some k \<longrightarrow> k \<le> run np j \<and> k \<le> prev_run np i"
  shows "j2lenget j2len j \<le> prev_run np j \<and> j2lenget j2len j \<le> prev_run np i"
  using assms by (auto simp: j2lenget_def prev_run_def split: nat.splits option.splits)

lemma j2lenget_diag:
  assumes "\<forall>j k. j2len j = Some k \<longrightarrow> k \<le> run np j \<and> k \<le> prev_run np i"
    and "\<forall>i'. i = Suc i' \<longrightarrow> np i' \<longrightarrow> j2len i' = Some (run np i')"
  shows "j2lenget j2len i = prev_run np i"
proof (cases i)
  case 0
  then show ?thesis by (simp add: j2lenget_def prev_run_def)
next
  case (Suc i')
  show ?thesis
  proof (cases "np i'")
    case True
    with assms(2) Suc show ?thesis by (simp add: j2lenget_def prev_run_def)
  next
    case False
    then have "prev_run np i = 0"
      using Suc by (cases i') (simp_all add: prev_run_def)
    with j2lenget_le [OF assms(1), of i] show ?thesis by simp
  qed
qed

lemma flm_inner_diag:
  assumes "flm_inner i 0 n j2len rest (new, bi, bj, bs) = (new', bi', bj', bs')"
    and prev: "\<forall>j k. j2len j = Some k \<longrightarrow> k \<le> run np j \<and> k \<le> prev_run np i"
       "\<forall>i'. i = Suc i' \<longrightarrow> np i' \<longrightarrow> j2len i' = Some (run np i')"
    and rest: "sorted_wrt (<) rest" "\<forall>j \<in> set rest. j < n \<and> np j" "np i"
    and inv: "bi = bj" "\<forall>i' < i. run np i' \<le> bs"
       "\<forall>j k. new j = Some k \<longrightarrow> k \<le> run np j \<and> k \<le> run np i"
       "i \<notin> set rest \<longrightarrow> new i = Some (run np i) \<and> run np i \<le> bs"
  shows "bi' = bj' \<and> (\<forall>i' < i. run np i' \<le> bs') \<and>
         (\<forall>j k. new' j = Some k \<longrightarrow> k \<le> run np j \<and> k \<le> run np i) \<and>
         new' i = Some (run np i) \<and> run np i \<le> bs'"
  using assms(1) rest(1,2) inv
proof (induction rest arbitrary: new bi bj bs)
  case Nil
  then show ?case by simp
next
  case (Cons j rest)
  let ?k = "j2lenget j2len j + 1"
  have jn: "j < n" and npj: "np j"
    using Cons.prems(3) by simp_all
  have kj: "?k \<le> run np j"
    using j2lenget_le [OF prev(1), of j] npj by (simp add: run_prev [of np j])
  have ki: "?k \<le> run np i"
    using j2lenget_le [OF prev(1), of j] rest(3) by (simp add: run_prev [of np i])
  have kd: "j = i \<Longrightarrow> ?k = run np i"
    using j2lenget_diag [OF prev] rest(3) by (simp add: run_prev [of np i])
  have sorted: "sorted_wrt (<) rest" and lt: "\<forall>x \<in> set rest. j < x"
    using Cons.prems(2) by simp_all
  have rest_ok: "\<forall>j \<in> set rest. j < n \<and> np j"
    using Cons.prems(3) by simp
  have new_ok: "\<forall>j' k. (new(j \<mapsto> ?k)) j' = Some k \<longrightarrow> k \<le> run np j' \<and> k \<le> run np i"
    using Cons.prems(6) kj ki by auto
  have small: "?k \<le> bs" if "j \<noteq> i"
  proof (cases "j < i")
    case True
    with Cons.prems(5) kj show ?thesis by fastforce
  next
    case False
    with that have "i < j" by simp
    with lt have "i \<notin> set (j # rest)" by auto
    with Cons.prems(7) ki show ?thesis by simp
  qed
  show ?case
  proof (cases "bs < ?k")
    case True
    with small have ji: "j = i" by fastforce
    have run: "flm_inner i 0 n j2len rest (new(j \<mapsto> ?k), i + 1 - ?k, j + 1 - ?k, ?k) = (new', bi', bj', bs')"
      using Cons.prems(1) jn True by (simp add: Let_def)
    show ?thesis
    proof (rule Cons.IH [OF run sorted rest_ok _ _ new_ok])
      show "i + 1 - ?k = j + 1 - ?k" using ji by simp
      show "\<forall>i'<i. run np i' \<le> ?k" using Cons.prems(5) True by fastforce
      show "i \<notin> set rest \<longrightarrow> (new(j \<mapsto> ?k)) i = Some (run np i) \<and> run np i \<le> ?k"
        using ji kd by simp
    qed
  next
    case False
    have run: "flm_inner i 0 n j2len rest (new(j \<mapsto> ?k), bi, bj, bs) = (new', bi', bj', bs')"
      using Cons.prems(1) jn False by (simp add: Let_def)
    show ?thesis
    proof (rule Cons.IH [OF run sorted rest_ok Cons.prems(4,5) new_ok])
      show "i \<notin> set rest \<longrightarrow> (new(j \<mapsto> ?k)) i = Some (run np i) \<and> run np i \<le> bs"
      proof (cases "j = i")
        case True
        with kd False show ?thesis by simp
      next
        case ne: False
        with Cons.prems(7) show ?thesis by auto
      qed
    qed
  qed
qed

definition indexed :: "('a \<rightharpoonup> nat list) \<Rightarrow> 'a list \<Rightarrow> nat \<Rightarrow> bool" where
  "indexed b2j a i \<longleftrightarrow> b2j (a ! i) \<noteq> None"

lemma flm_row_diag:
  assumes ok: "index_ok a b2j" and i: "i < length a"
    and inv: "row_inv (indexed b2j a) i (j2len, bi, bj, bs)"
  shows "row_inv (indexed b2j a) (Suc i)
           (flm_inner i 0 (length a) j2len (case b2j (a ! i) of None \<Rightarrow> [] | Some js \<Rightarrow> js)
              (Map.empty, bi, bj, bs))"
proof -
  let ?np = "indexed b2j a"
  from inv have bij: "bi = bj" and runs: "\<forall>i' < i. run ?np i' \<le> bs"
    and prev: "\<forall>j k. j2len j = Some k \<longrightarrow> k \<le> run ?np j \<and> k \<le> prev_run ?np i"
      "\<forall>i'. i = Suc i' \<longrightarrow> ?np i' \<longrightarrow> j2len i' = Some (run ?np i')"
    by (simp_all add: row_inv_def)
  show ?thesis
  proof (cases "b2j (a ! i)")
    case None
    then have "run ?np i = 0"
      by (simp add: run_prev [of ?np i] indexed_def)
    with None bij runs show ?thesis
      by (auto simp: row_inv_def less_Suc_eq indexed_def)
  next
    case (Some js)
    with ok have js: "sorted_wrt (<) js" "set js = {j. j < length a \<and> a ! j = a ! i}"
      by (simp_all add: index_ok_def)
    have npi: "?np i"
      using Some by (simp add: indexed_def)
    have mem: "\<forall>j \<in> set js. j < length a \<and> ?np j"
      using js(2) Some by (auto simp: indexed_def)
    have iin: "i \<in> set js"
      using js(2) i by simp
    obtain new' bi' bj' bs' where res:
      "flm_inner i 0 (length a) j2len js (Map.empty, bi, bj, bs) = (new', bi', bj', bs')"
      by (metis prod_cases4)
    have "bi' = bj' \<and> (\<forall>i' < i. run ?np i' \<le> bs') \<and>
         (\<forall>j k. new' j = Some k \<longrightarrow> k \<le> run ?np j \<and> k \<le> run ?np i) \<and>
         new' i = Some (run ?np i) \<and> run ?np i \<le> bs'"
      by (rule flm_inner_diag [OF res prev js(1) mem npi bij runs]) (use iin in simp_all)
    then show ?thesis
      using Some res by (auto simp: row_inv_def less_Suc_eq prev_run_def)
  qed
qed

lemma flm_outer_diag:
  assumes ok: "index_ok a b2j"
    and "flm_outer a b2j 0 (length a) [i..<length a] st = (j2len', bi', bj', bs')"
    and "row_inv (indexed b2j a) i st"
  shows "bi' = bj'"
  using assms(2,3)
proof (induction "length a - i" arbitrary: i st)
  case 0
  then show ?case by (auto simp: row_inv_def)
next
  case (Suc m)
  then have lt: "i < length a" by simp
  obtain j2len bi bj bs where st: "st = (j2len, bi, bj, bs)"
    by (metis prod_cases4)
  let ?st' = "flm_inner i 0 (length a) j2len (case b2j (a ! i) of None \<Rightarrow> [] | Some js \<Rightarrow> js)
                (Map.empty, bi, bj, bs)"
  have run: "flm_outer a b2j 0 (length a) [Suc i..<length a] ?st' = (j2len', bi', bj', bs')"
    using Suc.prems(1) lt by (simp add: upt_conv_Cons st)
  have inv: "row_inv (indexed b2j a) (Suc i) ?st'"
    using flm_row_diag [OF ok lt] Suc.prems(2) by (simp add: st)
  show ?case
    by (rule Suc.hyps(1) [OF _ run inv]) (use Suc.hyps(2) in simp)
qed

lemma extend_left_self: "extend_left a a 0 0 (i, i, k) = (0, 0, k + i)"
proof (induction i arbitrary: k)
  case 0
  then show ?case by (simp add: extend_left.simps [of a a 0 0 0])
next
  case (Suc i)
  then show ?case by (simp add: extend_left.simps [of a a 0 0 "Suc i"])
qed

lemma extend_right_self: "k \<le> n \<Longrightarrow> extend_right a a n n (0, 0, k) = (0, 0, n)"
proof (induction "n - k" arbitrary: k)
  case 0
  then have "k = n" by simp
  then show ?case by (subst extend_right.simps) simp
next
  case (Suc m)
  then have "extend_right a a n n (0, 0, k + 1) = (0, 0, n)" and "k < n"
    by simp_all
  then show ?case by (subst extend_right.simps) simp
qed

lemma find_longest_match_self:
  assumes "index_ok a b2j"
  shows "find_longest_match a a b2j 0 (length a) 0 (length a) = (0, 0, length a)"
proof -
  obtain m bi bj bs where outer:
    "flm_outer a b2j 0 (length a) [0..<length a] (Map.empty, 0, 0, 0) = (m, bi, bj, bs)"
    by (metis prod_cases4)
  have "row_inv (indexed b2j a) 0 (Map.empty, 0, 0, 0)"
    by (simp add: row_inv_def)
  from flm_outer_diag [OF assms outer this] have eq: "bi = bj" .
  have "0 \<le> bi \<and> bi + bs \<le> length a"
    by (rule flm_outer_bounds [OF outer]) simp_all
  then show ?thesis
    by (simp add: find_longest_match_def outer eq extend_left_self extend_right_self)
qed

lemma get_matching_blocks_self:
  "get_matching_blocks a a = (if a = [] then [(0, 0, 0)] else [(0, 0, length a), (length a, length a, 0)])"
  by (simp add: get_matching_blocks_def gmb_loop.simps Let_def
      find_longest_match_self [OF index_ok_chain_b])

lemma ratio_self: "ratio a a = 1"
proof -
  have "ratio a a = calculate_ratio (length a) (length a + length a)"
    by (simp add: ratio_def get_matching_blocks_self)
  then show ?thesis
    by (simp only: calculate_ratio_self)
qed

section \<open>Lemmas on the reconciler\<close>

lemma bind_err_simps [simp]:
  "bind_err (Inl e) f = Inl e"
  "bind_err (Inr x) f = f x"
  by (simp_all add: bind_err_def)

lemma bind_err_Inr_iff: "bind_err m f = Inr y \<longleftrightarrow> (\<exists>x. m = Inr x \<and> f x = Inr y)"
  by (cases m) simp_all

lemma fold_max_ge: "(b::rat) \<le> fold max ss b"
proof (induction ss arbitrary: b)
  case Nil
  then show ?case by simp
next
  case (Cons s ss)
  have "b \<le> max s b" by simp
  also have "\<dots> \<le> fold max ss (max s b)" by (rule Cons.IH)
  finally show ?case by simp
qed

lemma fold_max_absorb: "(s::rat) \<le> b \<Longrightarrow> fold max (s # ss) b = fold max ss b"
  by (simp add: max_def)

lemma fold_max_Max: "fold max ss (b::rat) = Max (insert b (set ss))"
  using Max.set_eq_fold [of b ss] by simp

lemma find_best_char:
  assumes "find_best used po_it xs (bm0, bs0, bi0) = Inr (bm, bs, bi)"
  shows "list_all (\<lambda>c. \<exists>s. pair_score po_it (snd c) = Inr s) (filter (\<lambda>c. fst c \<notin> used) xs) \<and>
         bs = fold max (scores po_it (filter (\<lambda>c. fst c \<notin> used) xs)) bs0 \<and>
         (if bs0 < bs
          then \<exists>c. find (\<lambda>c. pair_score po_it (snd c) = Inr bs) (filter (\<lambda>c. fst c \<notin> used) xs) = Some c \<and>
                   bm = snd c \<and> bi = Some (fst c)
          else bm = bm0 \<and> bi = bi0)"
  using assms
proof (induction xs arbitrary: bm0 bs0 bi0)
  case Nil
  then show ?case by (simp add: scores_def)
next
  case (Cons x xs)
  obtain idx inv_it where x: "x = (idx, inv_it)" by (cases x)
  let ?cs = "filter (\<lambda>c. fst c \<notin> used) xs"
  show ?case
  proof (cases "idx \<in> used")
    case True
    then have f: "filter (\<lambda>c. fst c \<notin> used) (x # xs) = ?cs"
      by (simp add: x)
    from True Cons.prems have "find_best used po_it xs (bm0, bs0, bi0) = Inr (bm, bs, bi)"
      by (simp add: x)
    then show ?thesis
      unfolding f by (rule Cons.IH)
  next
    case False
    then obtain s where s: "pair_score po_it inv_it = Inr s"
      using Cons.prems by (auto simp: x split: sum.splits)
    have f: "filter (\<lambda>c. fst c \<notin> used) (x # xs) = x # ?cs"
      using False by (simp add: x)
    have sc: "scores po_it (x # ?cs) = s # scores po_it ?cs"
      by (simp add: scores_def x s)
    have ok: "list_all (\<lambda>c. \<exists>s. pair_score po_it (snd c) = Inr s) (x # ?cs)"
      if "list_all (\<lambda>c. \<exists>s. pair_score po_it (snd c) = Inr s) ?cs"
      using that s by (simp add: x)
    show ?thesis
    proof (cases "bs0 < s")
      case True
      then have run: "find_best used po_it xs (inv_it, s, Some idx) = Inr (bm, bs, bi)"
        using Cons.prems False by (simp add: x s)
      note ih = Cons.IH [OF run]
      note ih1 = ih [THEN conjunct1] and ih2 = ih [THEN conjunct2, THEN conjunct1]
        and ih3 = ih [THEN conjunct2, THEN conjunct2]
      have ge: "s \<le> bs"
        unfolding ih2 by (rule fold_max_ge)
      have "max s bs0 = s"
        using True by simp
      then have bs: "bs = fold max (scores po_it (x # ?cs)) bs0"
        using ih2 by (simp add: sc)
      have lt: "bs0 < bs"
        using True ge by simp
      have "\<exists>c. find (\<lambda>c. pair_score po_it (snd c) = Inr bs) (x # ?cs) = Some c \<and>
          bm = snd c \<and> bi = Some (fst c)"
      proof (cases "s < bs")
        case True
        then have "find (\<lambda>c. pair_score po_it (snd c) = Inr bs) (x # ?cs)
            = find (\<lambda>c. pair_score po_it (snd c) = Inr bs) ?cs"
          by (simp add: x s)
        moreover from ih3 True
        have "\<exists>c. find (\<lambda>c. pair_score po_it (snd c) = Inr bs) ?cs = Some c \<and>
            bm = snd c \<and> bi = Some (fst c)"
          by (simp only: if_True)
        ultimately show ?thesis by (simp only:)
      next
        case False
        with ge have eq: "s = bs" by simp
        then have "find (\<lambda>c. pair_score po_it (snd c) = Inr bs) (x # ?cs) = Some x"
          by (simp add: x s)
        moreover from ih3 False have "bm = inv_it \<and> bi = Some idx"
          by (simp only: if_False)
        ultimately show ?thesis by (simp add: x)
      qed
      with lt have "if bs0 < bs
          then \<exists>c. find (\<lambda>c. pair_score po_it (snd c) = Inr bs) (x # ?cs) = Some c \<and>
                   bm = snd c \<and> bi = Some (fst c)
          else bm = bm0 \<and> bi = bi0"
        by (simp only: if_True)
      with ok [OF ih1] bs show ?thesis
        unfolding f by blast
    next
      case le: False
      then have run: "find_best used po_it xs (bm0, bs0, bi0) = Inr (bm, bs, bi)"
        using Cons.prems False by (simp add: x s)
      note ih = Cons.IH [OF run]
      note ih1 = ih [THEN conjunct1] and ih2 = ih [THEN conjunct2, THEN conjunct1]
        and ih3 = ih [THEN conjunct2, THEN conjunct2]
      have "max s bs0 = bs0"
        using le by simp
      then have bs: "bs = fold max (scores po_it (x # ?cs)) bs0"
        using ih2 by (simp add: sc)
      have "find (\<lambda>c. pair_score po_it (snd c) = Inr bs) (x # ?cs)
          = find (\<lambda>c. pair_score po_it (snd c) = Inr bs) ?cs" if "bs0 < bs"
        using that le by (simp add: x s)
      with ih3 have "if bs0 < bs
          then \<exists>c. find (\<lambda>c. pair_score po_it (snd c) = Inr bs) (x # ?cs) = Some c \<and>
                   bm = snd c \<and> bi = Some (fst c)
          else bm = bm0 \<and> bi = bi0"
        by (cases "bs0 < bs") (simp_all only: if_True if_False)
      with ok [OF ih1] bs show ?thesis
        unfolding f by blast
    qed
  qed
qed

lemma best_of_fold: "best_of po_it cs = fold max (scores po_it cs) 0"
  by (simp add: best_of_def fold_max_Max)

lemma best_of_nonneg: "0 \<le> best_of po_it cs"
  unfolding best_of_fold by (rule fold_max_ge)

lemma find_best_selected:
  assumes "find_best used po_it (enumerate 0 inv_list) (PNone, 0, None) = Inr (bm, bs, bi)"
  shows "list_all (\<lambda>c. \<exists>s. pair_score po_it (snd c) = Inr s) (unclaimed used inv_list) \<and>
         bs = best_of po_it (unclaimed used inv_list) \<and>
         (case selected po_it (unclaimed used inv_list) of
            None \<Rightarrow> bm = PNone \<and> bi = None
          | Some c \<Rightarrow> bm = snd c \<and> bi = Some (fst c))"
proof -
  let ?cs = "unclaimed used inv_list"
  note fb = find_best_char [OF assms, folded unclaimed_def]
  from fb have bs: "bs = best_of po_it ?cs"
    by (simp only: best_of_fold)
  note fb3 = fb [THEN conjunct2, THEN conjunct2, unfolded bs]
  have "case selected po_it ?cs of
            None \<Rightarrow> bm = PNone \<and> bi = None
          | Some c \<Rightarrow> bm = snd c \<and> bi = Some (fst c)"
  proof (cases "0 < best_of po_it ?cs")
    case True
    with fb3 obtain c where
      "find (\<lambda>c. pair_score po_it (snd c) = Inr (best_of po_it ?cs)) ?cs = Some c"
      "bm = snd c" "bi = Some (fst c)"
      by (auto simp only: if_True)
    then show ?thesis
      using True by (simp add: selected_def)
  next
    case False
    with fb3 have "bm = PNone \<and> bi = None"
      by (simp only: if_False)
    then show ?thesis
      using False by (simp add: selected_def)
  qed
  with fb [THEN conjunct1] bs show ?thesis
    by (simp only: simp_thms)
qed

lemma selected_SomeD:
  assumes "selected po_it (unclaimed used inv_list) = Some c"
  shows "fst c \<notin> used" "fst c < length inv_list" "snd c = inv_list ! fst c"
    "pair_score po_it (snd c) = Inr (best_of po_it (unclaimed used inv_list))"
    "0 < best_of po_it (unclaimed used inv_list)"
proof -
  from assms have pos: "0 < best_of po_it (unclaimed used inv_list)"
    and f: "find (\<lambda>c. pair_score po_it (snd c) = Inr (best_of po_it (unclaimed used inv_list)))
              (unclaimed used inv_list) = Some c"
    by (simp_all add: selected_def split: if_splits)
  from f have "c \<in> set (unclaimed used inv_list)"
    and "pair_score po_it (snd c) = Inr (best_of po_it (unclaimed used inv_list))"
    by (auto simp: find_Some_iff in_set_conv_nth)
  then show "fst c \<notin> used" "fst c < length inv_list" "snd c = inv_list ! fst c"
    "pair_score po_it (snd c) = Inr (best_of po_it (unclaimed used inv_list))"
    "0 < best_of po_it (unclaimed used inv_list)"
    using pos by (auto simp: unclaimed_def in_set_enumerate_eq)
qed

lemma pair_score_dict: "pair_score po_it inv_it = Inr s \<Longrightarrow> \<exists>kvs. inv_it = PDict kvs"
  by (cases inv_it; cases po_it) (simp_all add: pair_score_def)

lemma get_or_blank_dict: "get_or_blank (PDict kvs) key = py_get (PDict kvs) key (PStr [])"
  by (cases kvs) (simp_all add: get_or_blank_def)

lemma get_or_blank_None: "get_or_blank PNone key = Inr (PStr [])"
  by (simp add: get_or_blank_def)

lemma po_step_char:
  assumes "po_step t inv_items used po_it = Inr (claimed, row, used')"
  obtains inv_list where
    "py_iter inv_items = Inr inv_list"
    "list_all (\<lambda>c. \<exists>s. pair_score po_it (snd c) = Inr s) (unclaimed used inv_list)"
    "claimed = (case selected po_it (unclaimed used inv_list) of
                  None \<Rightarrow> None
                | Some c \<Rightarrow> if t \<le> best_of po_it (unclaimed used inv_list) then Some (fst c) else None)"
    "used' = (case claimed of None \<Rightarrow> used | Some idx \<Rightarrow> insert idx used)"
    "py_get po_it ''description'' (PStr []) = Inr (PO_Item row)"
    "py_get po_it ''qty'' (PStr []) = Inr (PO_Qty row)"
    "py_get po_it ''unit_price'' (PStr []) = Inr (PO_Price row)"
    "py_get po_it ''total'' (PStr []) = Inr (PO_Total row)"
    "case selected po_it (unclaimed used inv_list) of
       None \<Rightarrow> Invoice_Item row = PStr [] \<and> Invoice_Qty row = PStr [] \<and>
               Invoice_Price row = PStr [] \<and> Invoice_Total row = PStr []
     | Some c \<Rightarrow> py_get (snd c) ''description'' (PStr []) = Inr (Invoice_Item row) \<and>
                 py_get (snd c) ''qty'' (PStr []) = Inr (Invoice_Qty row) \<and>
                 py_get (snd c) ''unit_price'' (PStr []) = Inr (Invoice_Price row) \<and>
                 py_get (snd c) ''total'' (PStr []) = Inr (Invoice_Total row)"
    "Status row =
       (if t \<le> best_of po_it (unclaimed used inv_list) \<and> py_str (PO_Total row) = py_str (Invoice_Total row)
        then ''Match''
        else if t \<le> best_of po_it (unclaimed used inv_list) then ''Partial Match''
        else ''Mismatch'')"
    "Match_Score row = round2 (best_of po_it (unclaimed used inv_list))"
proof -
  from assms obtain inv_list bm bs bi po_qty inv_qty po_price inv_price po_total inv_total po_desc inv_desc
    where it: "py_iter inv_items = Inr inv_list"
      and fb: "find_best used po_it (enumerate 0 inv_list) (PNone, 0, None) = Inr (bm, bs, bi)"
      and po: "py_get po_it ''qty'' (PStr []) = Inr po_qty"
        "py_get po_it ''unit_price'' (PStr []) = Inr po_price"
        "py_get po_it ''total'' (PStr []) = Inr po_total"
        "py_get po_it ''description'' (PStr []) = Inr po_desc"
      and inv: "get_or_blank bm ''qty'' = Inr inv_qty"
        "get_or_blank bm ''unit_price'' = Inr inv_price"
        "get_or_blank bm ''total'' = Inr inv_total"
        "get_or_blank bm ''description'' = Inr inv_desc"
      and cl: "claimed = (if bi \<noteq> None \<and> t \<le> bs then bi else None)"
      and us: "used' = (case claimed of None \<Rightarrow> used | Some idx \<Rightarrow> insert idx used)"
      and row: "row = \<lparr>PO_Item = po_desc, PO_Qty = po_qty, PO_Price = po_price, PO_Total = po_total,
           Invoice_Item = inv_desc, Invoice_Qty = inv_qty, Invoice_Price = inv_price,
           Invoice_Total = inv_total,
           Status = (if t \<le> bs \<and> py_str po_total = py_str inv_total then ''Match''
                     else if t \<le> bs then ''Partial Match'' else ''Mismatch''),
           Match_Score = round2 bs\<rparr>"
    unfolding po_step_def bind_err_Inr_iff Let_def
    by (auto simp: bind_err_Inr_iff)
  let ?cs = "unclaimed used inv_list"
  note fs = find_best_selected [OF fb]
  have ok: "list_all (\<lambda>c. \<exists>s. pair_score po_it (snd c) = Inr s) ?cs"
    and bs: "bs = best_of po_it ?cs"
    and sel: "case selected po_it ?cs of None \<Rightarrow> bm = PNone \<and> bi = None
              | Some c \<Rightarrow> bm = snd c \<and> bi = Some (fst c)"
    using fs by simp_all
  have claimed: "claimed = (case selected po_it ?cs of
                  None \<Rightarrow> None
                | Some c \<Rightarrow> if t \<le> best_of po_it ?cs then Some (fst c) else None)"
    using sel cl bs by (auto split: option.splits)
  have invf: "case selected po_it ?cs of
       None \<Rightarrow> Invoice_Item row = PStr [] \<and> Invoice_Qty row = PStr [] \<and>
               Invoice_Price row = PStr [] \<and> Invoice_Total row = PStr []
     | Some c \<Rightarrow> py_get (snd c) ''description'' (PStr []) = Inr (Invoice_Item row) \<and>
                 py_get (snd c) ''qty'' (PStr []) = Inr (Invoice_Qty row) \<and>
                 py_get (snd c) ''unit_price'' (PStr []) = Inr (Invoice_Price row) \<and>
                 py_get (snd c) ''total'' (PStr []) = Inr (Invoice_Total row)"
  proof (cases "selected po_it ?cs")
    case None
    with sel have "bm = PNone" by simp
    with inv row None show ?thesis
      by (simp add: get_or_blank_None)
  next
    case (Some c)
    with sel have bm: "bm = snd c" by simp
    from selected_SomeD(4) [OF Some] pair_score_dict obtain kvs where "snd c = PDict kvs"
      by blast
    with inv row Some bm show ?thesis
      by (simp add: get_or_blank_dict)
  qed
  show thesis
    by (rule that [OF it ok claimed us _ _ _ _ invf]) (simp_all add: row po bs)
qed

lemma claims_simps [simp]:
  "claims [] = []"
  "claims ((None, r) # rows) = claims rows"
  "claims ((Some i, r) # rows) = i # claims rows"
  by (simp_all add: claims_def List.map_filter_simps)

lemma claims_append [simp]: "claims (xs @ ys) = claims xs @ claims ys"
  by (simp add: claims_def List.map_filter_def)

lemma claims_map_None [simp]: "claims (map (Pair None) rs) = []"
  by (induction rs) simp_all

lemma set_claims: "set (claims rows) = {i. \<exists>r. (Some i, r) \<in> set rows}"
proof (induction rows)
  case Nil
  then show ?case by simp
next
  case (Cons x rows)
  obtain c r where x: "x = (c, r)" by (cases x)
  show ?case
    using Cons.IH by (cases c) (auto simp: x)
qed

lemma po_step_used:
  assumes "po_step t inv_items used po_it = Inr (claimed, row, used')"
  shows "used' = used \<union> set (claims [(claimed, row)])"
proof -
  from assms obtain inv_list where
    "used' = (case claimed of None \<Rightarrow> used | Some idx \<Rightarrow> insert idx used)"
    by (rule po_step_char)
  then show ?thesis
    by (cases claimed) simp_all
qed

lemma po_loop_char:
  assumes "po_loop t inv_items used ps = Inr (prs, used')"
  shows "length prs = length ps \<and> used' = used \<union> set (claims prs) \<and>
         (\<forall>k < length ps.
            po_step t inv_items (used \<union> set (claims (take k prs))) (ps ! k) =
              Inr (fst (prs ! k), snd (prs ! k), used \<union> set (claims (take (Suc k) prs))))"
  using assms
proof (induction ps arbitrary: used prs)
  case Nil
  then show ?case by simp
next
  case (Cons p ps)
  from Cons.prems obtain c row u1 rows where
    step: "po_step t inv_items used p = Inr (c, row, u1)"
    and loop: "po_loop t inv_items u1 ps = Inr (rows, used')"
    and prs: "prs = (c, row) # rows"
    by (auto split: sum.splits prod.splits)
  have u1: "u1 = used \<union> set (claims [(c, row)])"
    by (rule po_step_used [OF step])
  note ih = Cons.IH [OF loop]
  have len: "length prs = length (p # ps)"
    using ih prs by simp
  have used: "used' = used \<union> set (claims prs)"
  proof -
    have "claims prs = claims [(c, row)] @ claims rows"
      unfolding prs by (cases c) simp_all
    with ih u1 show ?thesis by auto
  qed
  have "po_step t inv_items (used \<union> set (claims (take k prs))) ((p # ps) ! k) =
          Inr (fst (prs ! k), snd (prs ! k), used \<union> set (claims (take (Suc k) prs)))"
    if "k < length (p # ps)" for k
  proof (cases k)
    case 0
    then show ?thesis
      using step u1 by (simp add: prs)
  next
    case (Suc k')
    with that have k': "k' < length ps" by simp
    have a: "used \<union> set (claims (take k prs)) = u1 \<union> set (claims (take k' rows))"
      unfolding Suc prs u1 by (cases c) auto
    have b: "used \<union> set (claims (take (Suc k) prs)) = u1 \<union> set (claims (take (Suc k') rows))"
      unfolding Suc prs u1 by (cases c) auto
    from ih k' have "po_step t inv_items (u1 \<union> set (claims (take k' rows))) (ps ! k') =
        Inr (fst (rows ! k'), snd (rows ! k'), u1 \<union> set (claims (take (Suc k') rows)))"
      by blast
    then show ?thesis
      unfolding a b by (simp add: Suc prs)
  qed
  with len used show ?case by blast
qed

lemma unmatched_rows_char:
  assumes "unmatched_rows used xs = Inr rest"
  shows "list_all2 (\<lambda>c r. unmatched_row (snd c) = Inr r) (filter (\<lambda>c. fst c \<notin> used) xs) rest"
  using assms
proof (induction xs arbitrary: rest)
  case Nil
  then show ?case by simp
next
  case (Cons x xs)
  obtain idx inv_it where x: "x = (idx, inv_it)" by (cases x)
  show ?case
  proof (cases "idx \<in> used")
    case True
    with Cons show ?thesis by (simp add: x)
  next
    case False
    with Cons.prems obtain row rows where "unmatched_row inv_it = Inr row"
      "unmatched_rows used xs = Inr rows" "rest = row # rows"
      by (auto simp: x split: sum.splits)
    with Cons.IH [of rows] False show ?thesis by (simp add: x)
  qed
qed

lemma unmatched_row_char:
  assumes "unmatched_row inv_it = Inr row"
  shows "PO_Item row = PStr [] \<and> PO_Qty row = PStr [] \<and> PO_Price row = PStr [] \<and>
         PO_Total row = PStr [] \<and>
         py_get inv_it ''description'' (PStr []) = Inr (Invoice_Item row) \<and>
         py_get inv_it ''qty'' (PStr []) = Inr (Invoice_Qty row) \<and>
         py_get inv_it ''unit_price'' (PStr []) = Inr (Invoice_Price row) \<and>
         py_get inv_it ''total'' (PStr []) = Inr (Invoice_Total row) \<and>
         Status row = ''Mismatch'' \<and> Match_Score row = 0"
  using assms unfolding unmatched_row_def by (auto simp: bind_err_Inr_iff)

lemma reconcile_char:
  assumes "reconcile po_struct inv_struct t = Inr rows"
  obtains po_list inv_items inv_list prs used rest where
    "items_of po_struct = Inr po_list"
    "get_items inv_struct = Inr inv_items" "py_iter inv_items = Inr inv_list"
    "items_of inv_struct = Inr inv_list"
    "po_loop t inv_items {} po_list = Inr (prs, used)"
    "unmatched_rows used (enumerate 0 inv_list) = Inr rest"
    "rows = prs @ map (Pair None) rest"
  using assms unfolding reconcile_def items_of_def
  by (auto simp: bind_err_Inr_iff)

lemma reconcile_row:
  assumes "reconcile po_struct inv_struct t = Inr rows" "items_of po_struct = Inr po_list"
    and "k < length po_list"
  obtains inv_items where "get_items inv_struct = Inr inv_items"
    "po_step t inv_items (set (claims (take k rows))) (po_list ! k) =
       Inr (fst (rows ! k), snd (rows ! k), set (claims (take (Suc k) rows)))"
proof -
  from assms(1) obtain po_list' inv_items inv_list prs used rest where r:
    "items_of po_struct = Inr po_list'"
    "get_items inv_struct = Inr inv_items"
    "po_loop t inv_items {} po_list' = Inr (prs, used)"
    "rows = prs @ map (Pair None) rest"
    by (rule reconcile_char)
  from r(1) assms(2) have eq: "po_list' = po_list" by simp
  note pl = po_loop_char [OF r(3) [unfolded eq]]
  from pl have len: "length prs = length po_list" by simp
  from pl assms(3) have step:
    "po_step t inv_items ({} \<union> set (claims (take k prs))) (po_list ! k) =
       Inr (fst (prs ! k), snd (prs ! k), {} \<union> set (claims (take (Suc k) prs)))"
    by blast
  have "take k rows = take k prs" "take (Suc k) rows = take (Suc k) prs" "rows ! k = prs ! k"
    using assms(3) len by (simp_all add: r(4) nth_append)
  with step have "po_step t inv_items (set (claims (take k rows))) (po_list ! k) =
       Inr (fst (rows ! k), snd (rows ! k), set (claims (take (Suc k) rows)))"
    by simp
  with r(2) show thesis by (rule that)
qed

lemma items_of_iter:
  "get_items s = Inr items \<Longrightarrow> items_of s = Inr l \<Longrightarrow> py_iter items = Inr l"
  by (simp add: items_of_def)

lemma best_of_in_scores: "0 < best_of po_it cs \<Longrightarrow> best_of po_it cs \<in> set (scores po_it cs)"
proof -
  assume pos: "0 < best_of po_it cs"
  have "Max (insert 0 (set (scores po_it cs))) \<in> insert 0 (set (scores po_it cs))"
    by (rule Max_in) simp_all
  with pos show ?thesis by (auto simp: best_of_def)
qed

lemma scores_le_best: "s \<in> set (scores po_it cs) \<Longrightarrow> s \<le> best_of po_it cs"
  by (simp add: best_of_def)

lemma selected_None_iff:
  assumes "list_all (\<lambda>c. \<exists>s. pair_score po_it (snd c) = Inr s) cs"
  shows "selected po_it cs = None \<longleftrightarrow> \<not> 0 < best_of po_it cs"
proof (cases "0 < best_of po_it cs")
  case True
  from best_of_in_scores [OF True] obtain c where c: "c \<in> set cs"
    "projr (pair_score po_it (snd c)) = best_of po_it cs"
    by (auto simp: scores_def)
  with assms have "pair_score po_it (snd c) = Inr (best_of po_it cs)"
    by (auto simp: list_all_iff)
  with c(1) have "\<exists>x. x \<in> set cs \<and> pair_score po_it (snd x) = Inr (best_of po_it cs)"
    by blast
  then have "find (\<lambda>c. pair_score po_it (snd c) = Inr (best_of po_it cs)) cs \<noteq> None"
    unfolding find_None_iff by blast
  with True show ?thesis by (simp add: selected_def)
next
  case False
  then show ?thesis by (simp add: selected_def)
qed

lemma find_filter_Some: "find P xs = Some c \<Longrightarrow> Q c \<Longrightarrow> find P (filter Q xs) = Some c"
  by (induction xs) (auto split: if_splits)

lemma unclaimed_mono:
  assumes "U2 \<subseteq> U1"
  shows "unclaimed U1 l = filter (\<lambda>c. fst c \<notin> U1) (unclaimed U2 l)"
proof -
  have "(\<lambda>c. fst c \<notin> U2 \<and> fst c \<notin> U1) = (\<lambda>c::nat \<times> pyval. fst c \<notin> U1)"
    using assms by auto
  then show ?thesis
    by (simp add: unclaimed_def)
qed

lemma selected_stable:
  assumes sub: "U2 \<subseteq> U1"
    and sel: "selected po_it (unclaimed U2 l) = Some c" and free: "fst c \<notin> U1"
  shows "selected po_it (unclaimed U1 l) = Some c \<and>
         best_of po_it (unclaimed U1 l) = best_of po_it (unclaimed U2 l)"
proof -
  let ?b2 = "best_of po_it (unclaimed U2 l)" and ?b1 = "best_of po_it (unclaimed U1 l)"
  from sel have pos: "0 < ?b2"
    and f: "find (\<lambda>c. pair_score po_it (snd c) = Inr ?b2) (unclaimed U2 l) = Some c"
    by (simp_all add: selected_def split: if_splits)
  note u = unclaimed_mono [OF sub, of l]
  from find_filter_Some [OF f, of "\<lambda>c. fst c \<notin> U1"] free
  have f1: "find (\<lambda>c. pair_score po_it (snd c) = Inr ?b2) (unclaimed U1 l) = Some c"
    by (simp add: u)
  then have "c \<in> set (unclaimed U1 l)" "pair_score po_it (snd c) = Inr ?b2"
    by (auto simp: find_Some_iff in_set_conv_nth)
  then have "?b2 \<in> set (scores po_it (unclaimed U1 l))"
    by (force simp: scores_def)
  then have ge: "?b2 \<le> ?b1"
    by (rule scores_le_best)
  have "set (scores po_it (unclaimed U1 l)) \<subseteq> set (scores po_it (unclaimed U2 l))"
    unfolding u scores_def by auto
  then have "insert 0 (set (scores po_it (unclaimed U1 l))) \<subseteq> insert 0 (set (scores po_it (unclaimed U2 l)))"
    by auto
  then have "?b1 \<le> ?b2"
    unfolding best_of_def by (intro Max_mono) simp_all
  with ge have eq: "?b1 = ?b2" by simp
  with pos f1 show ?thesis by (simp add: selected_def)
qed

lemma selected_first_max:
  assumes ok: "list_all (\<lambda>c. \<exists>s. pair_score po_it (snd c) = Inr s) cs"
    and sel: "selected po_it cs = Some c"
  shows "\<exists>i < length cs. cs ! i = c \<and> pair_score po_it (snd c) = Inr (best_of po_it cs) \<and>
           (\<forall>j < i. projr (pair_score po_it (snd (cs ! j))) < best_of po_it cs)"
proof -
  let ?P = "\<lambda>c. pair_score po_it (snd c) = Inr (best_of po_it cs)"
  from sel have "find ?P cs = Some c"
    by (simp add: selected_def split: if_splits)
  then obtain i where i: "i < length cs" "?P (cs ! i)" "c = cs ! i" "\<forall>j < i. \<not> ?P (cs ! j)"
    unfolding find_Some_iff by blast
  have "projr (pair_score po_it (snd (cs ! j))) < best_of po_it cs" if "j < i" for j
  proof -
    from that i(1) have j: "j < length cs" by simp
    with ok obtain s where s: "pair_score po_it (snd (cs ! j)) = Inr s"
      by (auto simp: list_all_length)
    with j have "s \<in> set (scores po_it cs)"
      by (force simp: scores_def in_set_conv_nth)
    then have "s \<le> best_of po_it cs"
      by (rule scores_le_best)
    moreover from i(4) that s have "s \<noteq> best_of po_it cs"
      by auto
    ultimately show ?thesis
      using s by simp
  qed
  with i show ?thesis by blast
qed

lemma find_best_all_used:
  "filter (\<lambda>c. fst c \<notin> used) xs = [] \<Longrightarrow> find_best used po_it xs st = Inr st"
proof (induction xs)
  case Nil
  then show ?case by simp
next
  case (Cons x xs)
  obtain idx inv_it where x: "x = (idx, inv_it)" by (cases x)
  obtain bm bs bi where st: "st = (bm, bs, bi)" by (cases st)
  from Cons show ?case
    by (simp add: x st split: if_splits)
qed

lemma round2_0: "round2 0 = 0"
  by (simp add: round2_def rhe_def fl_def)

lemma po_step_no_candidates:
  assumes "unclaimed inv_used inv_list = []"
  shows "po_step t (PList inv_list) inv_used (PDict kvs) =
     Inr (None,
          \<lparr>PO_Item = (case map_of kvs ''description'' of None \<Rightarrow> PStr [] | Some v \<Rightarrow> v),
           PO_Qty = (case map_of kvs ''qty'' of None \<Rightarrow> PStr [] | Some v \<Rightarrow> v),
           PO_Price = (case map_of kvs ''unit_price'' of None \<Rightarrow> PStr [] | Some v \<Rightarrow> v),
           PO_Total = (case map_of kvs ''total'' of None \<Rightarrow> PStr [] | Some v \<Rightarrow> v),
           Invoice_Item = PStr [], Invoice_Qty = PStr [], Invoice_Price = PStr [],
           Invoice_Total = PStr [],
           Status = (if t \<le> 0 \<and>
                        py_str (case map_of kvs ''total'' of None \<Rightarrow> PStr [] | Some v \<Rightarrow> v) = []
                     then ''Match'' else if t \<le> 0 then ''Partial Match'' else ''Mismatch''),
           Match_Score = 0\<rparr>,
          inv_used)"
proof -
  from assms have "find_best inv_used (PDict kvs) (enumerate 0 inv_list) (PNone, 0, None) = Inr (PNone, 0, None)"
    by (intro find_best_all_used) (simp add: unclaimed_def)
  then show ?thesis
    by (simp add: po_step_def get_or_blank_None round2_0)
qed

lemma reconcile_shape:
  assumes "reconcile po_struct inv_struct t = Inr rows" "items_of po_struct = Inr po_list"
    and "items_of inv_struct = Inr inv_list"
  obtains rest where "length po_list \<le> length rows"
    "drop (length po_list) rows = map (Pair None) rest"
    "claims (take (length po_list) rows) = claims rows"
    "unmatched_rows (set (claims rows)) (enumerate 0 inv_list) = Inr rest"
proof -
  from assms(1) obtain po_list' inv_items inv_list' prs used rest where r:
    "items_of po_struct = Inr po_list'"
    "items_of inv_struct = Inr inv_list'"
    "po_loop t inv_items {} po_list' = Inr (prs, used)"
    "unmatched_rows used (enumerate 0 inv_list') = Inr rest"
    "rows = prs @ map (Pair None) rest"
    by (rule reconcile_char)
  from r(1,2) assms(2,3) have eq: "po_list' = po_list" "inv_list' = inv_list" by simp_all
  note pl = po_loop_char [OF r(3) [unfolded eq]]
  from pl have len: "length prs = length po_list" and used: "used = set (claims prs)"
    by simp_all
  have cl: "claims rows = claims prs"
    by (simp add: r(5))
  show thesis
  proof (rule that [of rest])
    show "length po_list \<le> length rows" by (simp add: r(5) len)
    show "drop (length po_list) rows = map (Pair None) rest" by (simp add: r(5) len)
    show "claims (take (length po_list) rows) = claims rows" by (simp add: r(5) len)
    show "unmatched_rows (set (claims rows)) (enumerate 0 inv_list) = Inr rest"
      using r(4) by (simp add: cl used eq)
  qed
qed

lemma po_step_claim_fresh:
  assumes "po_step t inv_items used po_it = Inr (Some i, row, used')"
    and "py_iter inv_items = Inr inv_list"
  shows "i \<notin> used \<and> i < length inv_list"
proof -
  from assms(1) obtain inv_list' where c:
    "py_iter inv_items = Inr inv_list'"
    "Some i = (case selected po_it (unclaimed used inv_list') of
                  None \<Rightarrow> None
                | Some c \<Rightarrow> if t \<le> best_of po_it (unclaimed used inv_list') then Some (fst c) else None)"
    by (rule po_step_char)
  from c(1) assms(2) have eq: "inv_list' = inv_list" by simp
  from c(2) obtain x where x: "selected po_it (unclaimed used inv_list) = Some x" "fst x = i"
    unfolding eq by (auto split: option.splits if_splits)
  from selected_SomeD(1,2) [OF x(1)] x(2) show ?thesis by simp
qed

lemma claims_take_Suc:
  "k < length rows \<Longrightarrow>
   claims (take (Suc k) rows) =
     claims (take k rows) @ (case fst (rows ! k) of None \<Rightarrow> [] | Some i \<Rightarrow> [i])"
proof -
  assume "k < length rows"
  then have "take (Suc k) rows = take k rows @ [rows ! k]"
    by (rule take_Suc_conv_app_nth)
  moreover have "claims [rows ! k] = (case fst (rows ! k) of None \<Rightarrow> [] | Some i \<Rightarrow> [i])"
    by (cases "rows ! k"; cases "fst (rows ! k)") simp_all
  ultimately show ?thesis by simp
qed

lemma claims_prefix_distinct:
  assumes "reconcile po_struct inv_struct t = Inr rows" "items_of po_struct = Inr po_list"
    and "items_of inv_struct = Inr inv_list" and "k \<le> length po_list"
  shows "distinct (claims (take k rows)) \<and> (\<forall>i \<in> set (claims (take k rows)). i < length inv_list)"
  using assms(4)
proof (induction k)
  case 0
  then show ?case by simp
next
  case (Suc k)
  then have k: "k < length po_list" by simp
  from assms(1,2,3) obtain rest where "length po_list \<le> length rows"
    by (rule reconcile_shape)
  with k have kr: "k < length rows" by simp
  from assms(1,2) k obtain inv_items where items: "get_items inv_struct = Inr inv_items"
    and step: "po_step t inv_items (set (claims (take k rows))) (po_list ! k) =
       Inr (fst (rows ! k), snd (rows ! k), set (claims (take (Suc k) rows)))"
    by (rule reconcile_row)
  note it = items_of_iter [OF items assms(3)]
  show ?case
  proof (cases "fst (rows ! k)")
    case None
    with Suc k show ?thesis
      by (simp add: claims_take_Suc [OF kr])
  next
    case (Some i)
    from po_step_claim_fresh [OF step [unfolded Some] it]
    have "i \<notin> set (claims (take k rows))" "i < length inv_list"
      by simp_all
    with Suc k Some show ?thesis
      by (simp add: claims_take_Suc [OF kr])
  qed
qed

lemma claims_length_le: "length (claims xs) \<le> length xs"
  by (simp add: claims_def List.map_filter_def)

lemma claims_distinct:
  assumes "reconcile po_struct inv_struct t = Inr rows" "items_of po_struct = Inr po_list"
    and "items_of inv_struct = Inr inv_list"
  shows "distinct (claims rows)" "\<forall>i \<in> set (claims rows). i < length inv_list"
    "length (claims rows) \<le> length po_list"
proof -
  from assms obtain rest where c: "claims (take (length po_list) rows) = claims rows"
    by (rule reconcile_shape)
  from claims_prefix_distinct [OF assms order_refl]
  show "distinct (claims rows)" "\<forall>i \<in> set (claims rows). i < length inv_list"
    unfolding c by simp_all
  have "length (claims (take (length po_list) rows)) \<le> length (take (length po_list) rows)"
    by (rule claims_length_le)
  also have "\<dots> \<le> length po_list"
    by simp
  finally show "length (claims rows) \<le> length po_list"
    unfolding c .
qed

lemma claims_nth_unique:
  assumes "distinct (claims rows)" "k < length rows" "k' < length rows"
    and "fst (rows ! k) = Some i" "fst (rows ! k') = Some i"
  shows "k = k'"
  using assms
proof (induction rows arbitrary: k k')
  case Nil
  then show ?case by simp
next
  case (Cons x rows)
  obtain c r where x: "x = (c, r)" by (cases x)
  have mem: "i \<in> set (claims rows)" if "j < length rows" "fst (rows ! j) = Some i" for j
  proof -
    from that have "(Some i, snd (rows ! j)) \<in> set rows"
      by (metis nth_mem prod.collapse)
    then show ?thesis
      unfolding set_claims by blast
  qed
  have d: "distinct (claims rows)"
    using Cons.prems(1) by (cases c) (simp_all add: x)
  show ?case
  proof (cases k)
    case 0
    show ?thesis
    proof (cases k')
      case 0
      with \<open>k = 0\<close> show ?thesis by simp
    next
      case (Suc j')
      with Cons.prems(3,5) have "i \<in> set (claims rows)"
        by (intro mem [of j']) simp_all
      with Cons.prems(1,4) 0 show ?thesis
        by (simp add: x)
    qed
  next
    case (Suc j)
    show ?thesis
    proof (cases k')
      case 0
      from Suc Cons.prems(2,4) have "i \<in> set (claims rows)"
        by (intro mem [of j]) simp_all
      with Cons.prems(1,5) 0 show ?thesis
        by (simp add: x)
    next
      case k': (Suc j')
      from Cons.IH [OF d, of j j'] Cons.prems Suc k' show ?thesis
        by simp
    qed
  qed
qed

lemma length_unclaimed:
  assumes "distinct us" "\<forall>i \<in> set us. i < length l"
  shows "length (unclaimed (set us) l) = length l - length us"
proof -
  have "length (unclaimed (set us) l) = length (filter (\<lambda>i. i \<notin> set us) (map fst (enumerate 0 l)))"
    unfolding unclaimed_def filter_map by (simp add: comp_def)
  also have "\<dots> = card ({i. i \<notin> set us} \<inter> set [0..<length l])"
    unfolding map_fst_enumerate by (simp only: distinct_length_filter distinct_upt add_0)
  also have "{i. i \<notin> set us} \<inter> set [0..<length l] = {..<length l} - set us"
    by auto
  also have "card \<dots> = card {..<length l} - card (set us)"
    using assms(2) by (intro card_Diff_subset) auto
  also have "\<dots> = length l - length us"
    using assms(1) by (simp add: distinct_card)
  finally show ?thesis .
qed

lemma best_of_Nil: "best_of po_it [] = 0"
  by (simp add: best_of_def scores_def)

lemma selected_Nil: "selected po_it [] = None"
  by (simp add: selected_def best_of_Nil)

lemma missing_items_get: "missing_items s \<Longrightarrow> get_items s = Inr (PList [])"
  by (cases s) (simp_all add: get_items_def)

lemma document_get:
  assumes "document s"
  obtains xs where "get_items s = Inr (PList xs)" "list_all is_object xs"
proof (cases "missing_items s")
  case True
  then have "get_items s = Inr (PList [])"
    by (rule missing_items_get)
  then show thesis
    by (rule that) simp
next
  case False
  with assms obtain kvs v where s: "s = PDict kvs" "map_of kvs ''items'' = Some v"
    by (cases s) auto
  with assms obtain xs where v: "v = PList xs" "list_all is_object xs"
    by (cases v) simp_all
  from s have "kvs \<noteq> []"
    by auto
  with s v have "get_items s = Inr (PList xs)"
    by (simp add: get_items_def)
  then show thesis
    using v(2) by (rule that)
qed

lemma unmatched_rows_objects:
  "list_all is_object xs \<Longrightarrow> \<exists>rest. unmatched_rows used (enumerate n xs) = Inr rest"
proof (induction xs arbitrary: n)
  case Nil
  then show ?case by simp
next
  case (Cons x xs)
  then obtain kvs where x: "x = PDict kvs"
    by (cases x) simp_all
  from Cons obtain rest where "unmatched_rows used (enumerate (Suc n) xs) = Inr rest"
    by fastforce
  then show ?case
    by (simp add: x unmatched_row_def)
qed

lemma po_loop_no_candidates:
  "list_all is_object ps \<Longrightarrow> \<exists>prs. po_loop t (PList []) used ps = Inr (prs, used)"
proof (induction ps)
  case Nil
  then show ?case by simp
next
  case (Cons p ps)
  then obtain kvs where p: "p = PDict kvs"
    by (cases p) simp_all
  have u: "unclaimed used [] = []"
    by (simp add: unclaimed_def)
  from Cons obtain prs where "po_loop t (PList []) used ps = Inr (prs, used)"
    by fastforce
  then show ?case
    by (simp add: p po_step_no_candidates [OF u])
qed

lemma reconcile_get_items:
  "get_items po_struct = get_items po_struct' \<Longrightarrow> get_items inv_struct = get_items inv_struct' \<Longrightarrow>
   reconcile po_struct inv_struct t = reconcile po_struct' inv_struct' t"
  by (simp add: reconcile_def)

lemma get_items_empty: "get_items (PDict [(''items'', PList [])]) = Inr (PList [])"
  by (simp add: get_items_def)

lemma reconcile_po_row:
  assumes "reconcile po_struct inv_struct t = Inr rows"
    and "items_of po_struct = Inr po_list" and "items_of inv_struct = Inr inv_list"
    and "k < length po_list"
  shows "list_all (\<lambda>c. \<exists>s. pair_score (po_list ! k) (snd c) = Inr s)
           (unclaimed (set (claims (take k rows))) inv_list)"
    and "fst (rows ! k) =
           (case selected (po_list ! k) (unclaimed (set (claims (take k rows))) inv_list) of
              None \<Rightarrow> None
            | Some c \<Rightarrow>
                if t \<le> best_of (po_list ! k) (unclaimed (set (claims (take k rows))) inv_list)
                then Some (fst c) else None)"
    and "(Status (snd (rows ! k)) = ''Match'' \<or> Status (snd (rows ! k)) = ''Partial Match'') =
           (t \<le> best_of (po_list ! k) (unclaimed (set (claims (take k rows))) inv_list))"
    and "(Status (snd (rows ! k)) = ''Mismatch'') =
           (\<not> t \<le> best_of (po_list ! k) (unclaimed (set (claims (take k rows))) inv_list))"
proof -
  from assms(1,2,4) obtain inv_items where items: "get_items inv_struct = Inr inv_items"
    and step: "po_step t inv_items (set (claims (take k rows))) (po_list ! k) =
       Inr (fst (rows ! k), snd (rows ! k), set (claims (take (Suc k) rows)))"
    by (rule reconcile_row)
  from step obtain inv_list' where c:
    "py_iter inv_items = Inr inv_list'"
    "list_all (\<lambda>c. \<exists>s. pair_score (po_list ! k) (snd c) = Inr s)
       (unclaimed (set (claims (take k rows))) inv_list')"
    "fst (rows ! k) =
           (case selected (po_list ! k) (unclaimed (set (claims (take k rows))) inv_list') of
              None \<Rightarrow> None
            | Some c \<Rightarrow>
                if t \<le> best_of (po_list ! k) (unclaimed (set (claims (take k rows))) inv_list')
                then Some (fst c) else None)"
    "Status (snd (rows ! k)) =
       (if t \<le> best_of (po_list ! k) (unclaimed (set (claims (take k rows))) inv_list') \<and>
           py_str (PO_Total (snd (rows ! k))) = py_str (Invoice_Total (snd (rows ! k)))
        then ''Match''
        else if t \<le> best_of (po_list ! k) (unclaimed (set (claims (take k rows))) inv_list')
          then ''Partial Match''
        else ''Mismatch'')"
    by (rule po_step_char)
  have eq: "inv_list' = inv_list"
    using items_of_iter [OF items assms(3)] c(1) by simp
  from c(2) show "list_all (\<lambda>c. \<exists>s. pair_score (po_list ! k) (snd c) = Inr s)
           (unclaimed (set (claims (take k rows))) inv_list)"
    unfolding eq .
  from c(3) show "fst (rows ! k) =
           (case selected (po_list ! k) (unclaimed (set (claims (take k rows))) inv_list) of
              None \<Rightarrow> None
            | Some c \<Rightarrow>
                if t \<le> best_of (po_list ! k) (unclaimed (set (claims (take k rows))) inv_list)
                then Some (fst c) else None)"
    unfolding eq .
  from c(4) show "(Status (snd (rows ! k)) = ''Match'' \<or> Status (snd (rows ! k)) = ''Partial Match'') =
           (t \<le> best_of (po_list ! k) (unclaimed (set (claims (take k rows))) inv_list))"
    unfolding eq by simp
  from c(4) show "(Status (snd (rows ! k)) = ''Mismatch'') =
           (\<not> t \<le> best_of (po_list ! k) (unclaimed (set (claims (take k rows))) inv_list))"
    unfolding eq by simp
qed

lemma claims_threshold_mono:
  assumes r1: "reconcile po_struct inv_struct t1 = Inr rows1"
    and r2: "reconcile po_struct inv_struct t2 = Inr rows2"
    and le: "t1 \<le> t2"
    and po: "items_of po_struct = Inr po_list" and inv: "items_of inv_struct = Inr inv_list"
    and k: "k \<le> length po_list"
  shows "set (claims (take k rows2)) \<subseteq> set (claims (take k rows1))"
  using k
proof (induction k)
  case 0
  then show ?case by simp
next
  case (Suc k)
  then have k: "k < length po_list" and sub: "set (claims (take k rows2)) \<subseteq> set (claims (take k rows1))"
    by simp_all
  let ?U1 = "set (claims (take k rows1))" and ?U2 = "set (claims (take k rows2))"
  from r1 po inv obtain rest1 where "length po_list \<le> length rows1"
    by (rule reconcile_shape)
  with k have k1: "k < length rows1" by simp
  from r2 po inv obtain rest2 where "length po_list \<le> length rows2"
    by (rule reconcile_shape)
  with k have k2: "k < length rows2" by simp
  note c1 = claims_take_Suc [OF k1] and c2 = claims_take_Suc [OF k2]
  note f1 = reconcile_po_row(2) [OF r1 po inv k] and f2 = reconcile_po_row(2) [OF r2 po inv k]
  show ?case
  proof (cases "fst (rows2 ! k)")
    case None
    with sub show ?thesis
      by (auto simp: c1 c2)
  next
    case (Some i)
    with f2 obtain c where sel: "selected (po_list ! k) (unclaimed ?U2 inv_list) = Some c"
      and i: "fst c = i" and t2: "t2 \<le> best_of (po_list ! k) (unclaimed ?U2 inv_list)"
      by (auto split: option.splits if_splits)
    show ?thesis
    proof (cases "i \<in> ?U1")
      case True
      with sub Some show ?thesis
        by (auto simp: c1 c2)
    next
      case False
      with i have free: "fst c \<notin> ?U1" by simp
      from selected_stable [OF sub sel free]
      have s1: "selected (po_list ! k) (unclaimed ?U1 inv_list) = Some c"
        and b: "best_of (po_list ! k) (unclaimed ?U1 inv_list) = best_of (po_list ! k) (unclaimed ?U2 inv_list)"
        by simp_all
      from le t2 b have "t1 \<le> best_of (po_list ! k) (unclaimed ?U1 inv_list)"
        by simp
      with f1 s1 i have "fst (rows1 ! k) = Some i"
        by simp
      with sub Some show ?thesis
        by (auto simp: c1 c2)
    qed
  qed
qed

lemma claims_length_filter: "length (claims xs) = length (filter (\<lambda>r. fst r \<noteq> None) xs)"
proof (induction xs)
  case Nil
  then show ?case by simp
next
  case (Cons x xs)
  obtain c r where x: "x = (c, r)" by (cases x)
  from Cons show ?case
    by (cases c) (simp_all add: x)
qed

lemma length_filter_mono:
  "(\<And>x. x \<in> set xs \<Longrightarrow> P x \<Longrightarrow> Q x) \<Longrightarrow> length (filter P xs) \<le> length (filter Q xs)"
  by (induction xs) auto

lemma length_filter_all:
  "(\<And>x. x \<in> set xs \<Longrightarrow> P x) \<Longrightarrow> length (filter P xs) = length xs"
  by (induction xs) auto

lemma length_filter_none:
  "(\<And>x. x \<in> set xs \<Longrightarrow> \<not> P x) \<Longrightarrow> length (filter P xs) = 0"
  by (induction xs) auto

lemma reconcile_counts:
  assumes r: "reconcile po_struct inv_struct t = Inr rows"
    and po: "items_of po_struct = Inr po_list" and inv: "items_of inv_struct = Inr inv_list"
  shows "matched_count rows + mismatch_count rows = length rows"
    and "length rows = length po_list + (length inv_list - length (claims rows))"
    and "length (claims rows) \<le> matched_count rows"
    and "matched_count rows \<le> length po_list"
    and "0 < t \<Longrightarrow> matched_count rows = length (claims rows)"
    and "t \<le> 0 \<Longrightarrow> matched_count rows = length po_list"
proof -
  let ?n = "length po_list"
  let ?M = "\<lambda>r :: nat option \<times> comparison_row. Status (snd r) = ''Match'' \<or> Status (snd r) = ''Partial Match''"
  let ?X = "\<lambda>r :: nat option \<times> comparison_row. Status (snd r) = ''Mismatch''"
  let ?C = "\<lambda>r :: nat option \<times> comparison_row. fst r \<noteq> None"
  from r po inv obtain rest where sh: "?n \<le> length rows"
    "drop ?n rows = map (Pair None) rest"
    "claims (take ?n rows) = claims rows"
    "unmatched_rows (set (claims rows)) (enumerate 0 inv_list) = Inr rest"
    by (rule reconcile_shape)
  note d = claims_distinct [OF r po inv]
  from unmatched_rows_char [OF sh(4)]
  have um: "list_all2 (\<lambda>c r. unmatched_row (snd c) = Inr r) (unclaimed (set (claims rows)) inv_list) rest"
    by (simp add: unclaimed_def)
  then have lrest: "length rest = length (unclaimed (set (claims rows)) inv_list)"
    by (simp add: list_all2_lengthD)
  have tr: "Status x = ''Mismatch''" if "x \<in> set rest" for x
  proof -
    from that um obtain c where "unmatched_row (snd c) = Inr x"
      by (auto simp: list_all2_conv_all_nth in_set_conv_nth)
    then show ?thesis
      using unmatched_row_char by blast
  qed
  have split: "rows = take ?n rows @ map (Pair None) rest"
    using sh(2) by (metis append_take_drop_id)
  have ltake: "length (take ?n rows) = ?n"
    using sh(1) by simp
  have "length rows = length (take ?n rows) + length (drop ?n rows)"
    by simp
  also have "\<dots> = ?n + length rest"
    by (simp only: ltake sh(2) length_map)
  finally show len: "length rows = ?n + (length inv_list - length (claims rows))"
    by (simp add: lrest length_unclaimed [OF d(1,2)])
  have po_row: "\<exists>k < ?n. x = rows ! k" if "x \<in> set (take ?n rows)" for x
  proof -
    from that obtain k where "k < length (take ?n rows)" "x = take ?n rows ! k"
      by (auto simp: in_set_conv_nth)
    then show ?thesis
      by (auto simp: ltake)
  qed
  have excl: "?X x = (\<not> ?M x)" if "x \<in> set rows" for x
  proof -
    from that split have "x \<in> set (take ?n rows) \<or> x \<in> set (map (Pair None) rest)"
      by (metis Un_iff set_append)
    then show ?thesis
    proof
      assume "x \<in> set (take ?n rows)"
      then obtain k where k: "k < ?n" "x = rows ! k"
        using po_row by blast
      from reconcile_po_row(3,4) [OF r po inv k(1)] show ?thesis
        unfolding k(2) by simp
    next
      assume "x \<in> set (map (Pair None) rest)"
      then have "Status (snd x) = ''Mismatch''"
        using tr by auto
      then show ?thesis by simp
    qed
  qed
  have "length (filter ?M rows) + length (filter (\<lambda>x. \<not> ?M x) rows) = length rows"
    by (rule sum_length_filter_compl)
  moreover have "filter ?X rows = filter (\<lambda>x. \<not> ?M x) rows"
    by (rule filter_cong [OF refl]) (rule excl)
  ultimately show "matched_count rows + mismatch_count rows = length rows"
    by (simp add: matched_count_def mismatch_count_def)
  have "filter ?M (map (Pair None) rest) = []"
    unfolding filter_empty_conv using tr by auto
  then have "filter ?M rows = filter ?M (take ?n rows)"
    by (subst split) (simp only: filter_append append_Nil2)
  then have m: "matched_count rows = length (filter ?M (take ?n rows))"
    by (simp add: matched_count_def)
  have c: "length (claims rows) = length (filter ?C (take ?n rows))"
    unfolding sh(3) [symmetric] by (rule claims_length_filter)
  have cm: "?M x" if "x \<in> set (take ?n rows)" "?C x" for x
  proof -
    from that(1) obtain k where k: "k < ?n" "x = rows ! k"
      using po_row by blast
    from that(2) reconcile_po_row(2) [OF r po inv k(1)]
    have "t \<le> best_of (po_list ! k) (unclaimed (set (claims (take k rows))) inv_list)"
      unfolding k(2) by (auto split: option.splits if_splits)
    with reconcile_po_row(3) [OF r po inv k(1)] show ?thesis
      unfolding k(2) by simp
  qed
  show "length (claims rows) \<le> matched_count rows"
    unfolding m c by (rule length_filter_mono) (rule cm)
  have "length (filter ?M (take ?n rows)) \<le> length (take ?n rows)"
    by (rule length_filter_le)
  then show "matched_count rows \<le> ?n"
    unfolding m ltake .
  show "matched_count rows = length (claims rows)" if t: "0 < t"
  proof -
    have mc: "?C x" if "x \<in> set (take ?n rows)" "?M x" for x
    proof -
      from that(1) obtain k where k: "k < ?n" "x = rows ! k"
        using po_row by blast
      let ?cs = "unclaimed (set (claims (take k rows))) inv_list"
      from that(2) reconcile_po_row(3) [OF r po inv k(1)]
      have b: "t \<le> best_of (po_list ! k) ?cs"
        unfolding k(2) by simp
      with t have "0 < best_of (po_list ! k) ?cs"
        by simp
      with selected_None_iff [OF reconcile_po_row(1) [OF r po inv k(1)]]
      obtain c where "selected (po_list ! k) ?cs = Some c"
        by auto
      with reconcile_po_row(2) [OF r po inv k(1)] b show ?thesis
        unfolding k(2) by simp
    qed
    have "length (filter ?M (take ?n rows)) \<le> length (filter ?C (take ?n rows))"
      by (rule length_filter_mono) (rule mc)
    moreover have "length (filter ?C (take ?n rows)) \<le> length (filter ?M (take ?n rows))"
      by (rule length_filter_mono) (rule cm)
    ultimately show ?thesis
      unfolding m c by simp
  qed
  show "matched_count rows = ?n" if t: "t \<le> 0"
  proof -
    have "?M x" if "x \<in> set (take ?n rows)" for x
    proof -
      from that obtain k where k: "k < ?n" "x = rows ! k"
        using po_row by blast
      have "0 \<le> best_of (po_list ! k) (unclaimed (set (claims (take k rows))) inv_list)"
        by (rule best_of_nonneg)
      with t have "t \<le> best_of (po_list ! k) (unclaimed (set (claims (take k rows))) inv_list)"
        by simp
      with reconcile_po_row(3) [OF r po inv k(1)] show ?thesis
        unfolding k(2) by simp
    qed
    then have "length (filter ?M (take ?n rows)) = length (take ?n rows)"
      by (rule length_filter_all)
    then show ?thesis
      unfolding m ltake .
  qed
qed

lemma claims_count_mono:
  assumes r1: "reconcile po_struct inv_struct t1 = Inr rows1"
    and r2: "reconcile po_struct inv_struct t2 = Inr rows2"
    and le: "t1 \<le> t2"
  shows "length (claims rows2) \<le> length (claims rows1)"
proof -
  from r1 obtain po_list inv_list where po: "items_of po_struct = Inr po_list"
    and inv: "items_of inv_struct = Inr inv_list"
    by (rule reconcile_char)
  from r1 po inv obtain rest1 where s1: "claims (take (length po_list) rows1) = claims rows1"
    by (rule reconcile_shape)
  from r2 po inv obtain rest2 where s2: "claims (take (length po_list) rows2) = claims rows2"
    by (rule reconcile_shape)
  from claims_threshold_mono [OF r1 r2 le po inv order_refl]
  have "set (claims rows2) \<subseteq> set (claims rows1)"
    unfolding s1 s2 .
  then have "card (set (claims rows2)) \<le> card (set (claims rows1))"
    by (intro card_mono) simp_all
  with claims_distinct(1) [OF r1 po inv] claims_distinct(1) [OF r2 po inv] show ?thesis
    by (simp add: distinct_card)
qed

section \<open>Properties of the scorer\<close>

text \<open>
  C2, as the spec states it: the scorer is symmetric. It is not. \<open>SequenceMatcher\<close> looks for
  the longest block starting earliest in its first argument, and the recursion on the two
  sides of that block can find different totals when the arguments are swapped.
\<close>

theorem token_similarity_not_symmetric:
  "token_similarity ''tide'' ''diet'' \<noteq> token_similarity ''diet'' ''tide''"
  by code_simp

text \<open>
  C2, amended: the token component \<open>overlap\<close> is symmetric, and the score of \<open>(a, b)\<close>
  equals the score of \<open>(b, a)\<close> whenever the string ratio of the two orders is the same.
\<close>

theorem token_similarity_symmetric_if:
  "overlap a b = overlap b a \<and>
   (char_sim a b = char_sim b a \<longrightarrow> token_similarity a b = token_similarity b a)"
proof -
  have sym: "overlap a b = overlap b a"
    unfolding overlap_def Let_def
    by (simp only: Int_commute [of "set (findall_words (lower a))"]
        Un_commute [of "set (findall_words (lower a))"])
  then have "token_similarity a b = token_similarity b a" if "char_sim a b = char_sim b a"
    unfolding token_similarity_def using that by (simp only:)
  with sym show ?thesis by blast
qed

theorem token_similarity_symmetric_if_witness:
  "char_sim ''ab'' ''ba'' = char_sim ''ba'' ''ab'' \<and>
   token_similarity ''ab'' ''ba'' = token_similarity ''ba'' ''ab''"
proof -
  have h: "char_sim ''ab'' ''ba'' = char_sim ''ba'' ''ab''"
    by code_simp
  show ?thesis
    using h token_similarity_symmetric_if [of "''ab''" "''ba''"] by simp
qed

text \<open>
  C7, as the spec states it: \<open>score(a, a) = 1.0\<close> for every non-empty \<open>a\<close>. A non-empty
  string without a word character has no token, its token component is \<open>0\<close> and its score
  is \<open>0.5\<close>.
\<close>

theorem token_similarity_reflexive_counterexample:
  "''-'' \<noteq> [] \<and> token_similarity ''-'' ''-'' \<noteq> 1"
  by code_simp

text \<open>
  C7, amended: \<open>score(a, a)\<close> is \<open>1.0\<close> for every string with at least one word character
  (a letter, a digit or the underscore) and \<open>0.5\<close> for every other string.
\<close>

theorem token_similarity_reflexive:
  "token_similarity a a = (if list_ex is_word a then 1 else 1 / 2)"
  using fl_values by (simp add: token_similarity_def overlap_self char_sim_def ratio_self)

text \<open>
  C8. Empty-string safety: \<open>token_similarity("", "")\<close> returns a value and raises
  nothing. The token component is \<open>0\<close> (the denominator is \<open>max(0, 1) = 1\<close>), the
  string-ratio component is \<open>1\<close> (the branch of \<open>_calculate_ratio\<close> for length \<open>0\<close>), and
  the result is \<open>0.5\<close>.
\<close>

theorem token_similarity_empty:
  "overlap [] [] = 0 \<and> char_sim [] [] = 1 \<and> token_similarity [] [] = 1 / 2 \<and>
   py_token_similarity (PStr []) (PStr []) = Inr (1 / 2)"
  by code_simp

section \<open>Properties of the reconciler\<close>

text \<open>
  In the theorems below \<open>rows\<close> is the result of \<open>reconcile\<close>, \<open>po_list\<close> and \<open>inv_list\<close>
  are the two item lists, and row \<open>k\<close> is the row of purchase-order item \<open>k\<close>. The indices
  claimed before row \<open>k\<close> are \<open>claims (take k rows)\<close>.
\<close>

text \<open>
  C1, as the spec states it: the status is \<open>PartialMatch\<close> when the best score reaches the
  threshold and either total is absent. Here both totals are absent, the score is \<open>1\<close>
  and the status is \<open>Match\<close>: an absent total reads as the empty string, and two empty
  strings are equal.
\<close>

theorem row_status_counterexample:
  "reconcile
     (PDict [(''items'', PList [PDict [(''description'', PStr ''a'')]])])
     (PDict [(''items'', PList [PDict [(''description'', PStr ''a'')]])])
     (7 / 10) =
   Inr [(Some 0,
         \<lparr>PO_Item = PStr ''a'', PO_Qty = PStr [], PO_Price = PStr [], PO_Total = PStr [],
          Invoice_Item = PStr ''a'', Invoice_Qty = PStr [], Invoice_Price = PStr [],
          Invoice_Total = PStr [], Status = ''Match'', Match_Score = 1\<rparr>)]"
  by code_simp

text \<open>
  C1, amended: for every purchase-order row, with \<open>best\<close> the best score among the
  unclaimed candidates (\<open>0\<close> when there is none), and with an absent total (or the total
  of no selected invoice item) read as the empty string: the status is \<open>Match\<close> if
  \<open>best \<ge> threshold\<close> and the two totals have the same \<open>str\<close>, \<open>Partial Match\<close> if
  \<open>best \<ge> threshold\<close> and they differ, and \<open>Mismatch\<close> if \<open>best < threshold\<close>.
\<close>

theorem row_status:
  assumes "reconcile po_struct inv_struct t = Inr rows"
    and "items_of po_struct = Inr po_list" and "items_of inv_struct = Inr inv_list"
    and "k < length po_list"
  shows "let row = snd (rows ! k); po_it = po_list ! k;
             cs = unclaimed (set (claims (take k rows))) inv_list;
             best = best_of po_it cs
         in py_get po_it ''total'' (PStr []) = Inr (PO_Total row) \<and>
            (case selected po_it cs of
               None \<Rightarrow> Invoice_Total row = PStr []
             | Some c \<Rightarrow> py_get (snd c) ''total'' (PStr []) = Inr (Invoice_Total row)) \<and>
            (cs = [] \<longrightarrow> best = 0) \<and>
            Status row =
              (if t \<le> best \<and> py_str (PO_Total row) = py_str (Invoice_Total row) then ''Match''
               else if t \<le> best then ''Partial Match''
               else ''Mismatch'')"
proof -
  from assms(1,2,4) obtain inv_items where items: "get_items inv_struct = Inr inv_items"
    and step: "po_step t inv_items (set (claims (take k rows))) (po_list ! k) =
       Inr (fst (rows ! k), snd (rows ! k), set (claims (take (Suc k) rows)))"
    by (rule reconcile_row)
  from step obtain inv_list' where c:
    "py_iter inv_items = Inr inv_list'"
    "py_get (po_list ! k) ''total'' (PStr []) = Inr (PO_Total (snd (rows ! k)))"
    "case selected (po_list ! k) (unclaimed (set (claims (take k rows))) inv_list') of
       None \<Rightarrow> Invoice_Item (snd (rows ! k)) = PStr [] \<and> Invoice_Qty (snd (rows ! k)) = PStr [] \<and>
               Invoice_Price (snd (rows ! k)) = PStr [] \<and> Invoice_Total (snd (rows ! k)) = PStr []
     | Some c \<Rightarrow> py_get (snd c) ''description'' (PStr []) = Inr (Invoice_Item (snd (rows ! k))) \<and>
                 py_get (snd c) ''qty'' (PStr []) = Inr (Invoice_Qty (snd (rows ! k))) \<and>
                 py_get (snd c) ''unit_price'' (PStr []) = Inr (Invoice_Price (snd (rows ! k))) \<and>
                 py_get (snd c) ''total'' (PStr []) = Inr (Invoice_Total (snd (rows ! k)))"
    "Status (snd (rows ! k)) =
       (if t \<le> best_of (po_list ! k) (unclaimed (set (claims (take k rows))) inv_list') \<and>
           py_str (PO_Total (snd (rows ! k))) = py_str (Invoice_Total (snd (rows ! k)))
        then ''Match''
        else if t \<le> best_of (po_list ! k) (unclaimed (set (claims (take k rows))) inv_list')
          then ''Partial Match''
        else ''Mismatch'')"
    by (rule po_step_char)
  have eq: "inv_list' = inv_list"
    using items_of_iter [OF items assms(3)] c(1) by simp
  have "best_of (po_list ! k) [] = 0"
    by (simp add: best_of_def scores_def)
  with c(2,3,4) show ?thesis
    unfolding Let_def eq by (auto split: option.splits)
qed

theorem row_status_witness:
  "reconcile
     (PDict [(''items'', PList [PDict [(''description'', PStr ''a''), (''total'', PInt 50)]])])
     (PDict [(''items'', PList [PDict [(''description'', PStr ''a''), (''total'', PStr ''50'')]])])
     (7 / 10) =
   Inr [(Some 0,
         \<lparr>PO_Item = PStr ''a'', PO_Qty = PStr [], PO_Price = PStr [], PO_Total = PInt 50,
          Invoice_Item = PStr ''a'', Invoice_Qty = PStr [], Invoice_Price = PStr [],
          Invoice_Total = PStr ''50'', Status = ''Match'', Match_Score = 1\<rparr>)] \<and>
   best_of (PDict [(''description'', PStr ''a''), (''total'', PInt 50)])
     (unclaimed {} [PDict [(''description'', PStr ''a''), (''total'', PStr ''50'')]]) = 1 \<and>
   py_str (PInt 50) = py_str (PStr ''50'')"
proof -
  let ?po = "PDict [(''description'', PStr ''a''), (''total'', PInt 50)]"
  let ?inv = "PDict [(''description'', PStr ''a''), (''total'', PStr ''50'')]"
  let ?row = "\<lparr>PO_Item = PStr ''a'', PO_Qty = PStr [], PO_Price = PStr [], PO_Total = PInt 50,
          Invoice_Item = PStr ''a'', Invoice_Qty = PStr [], Invoice_Price = PStr [],
          Invoice_Total = PStr ''50'', Status = ''Match'', Match_Score = 1\<rparr>"
  have r: "reconcile (PDict [(''items'', PList [?po])]) (PDict [(''items'', PList [?inv])]) (7 / 10)
      = Inr [(Some 0, ?row)]"
    by code_simp
  have p: "items_of (PDict [(''items'', PList [?po])]) = Inr [?po]"
    by (simp add: items_of_def get_items_def)
  have i: "items_of (PDict [(''items'', PList [?inv])]) = Inr [?inv]"
    by (simp add: items_of_def get_items_def)
  have k: "0 < length [?po]"
    by simp
  have b: "best_of ?po (unclaimed {} [?inv]) = 1"
    by code_simp
  have s: "py_str (PInt 50) = py_str (PStr ''50'')"
    by code_simp
  from row_status [OF r p i k] r b s show ?thesis
    by (simp add: Let_def)
qed

text \<open>
  C4, as the spec states it: below the threshold the best-scoring candidate, if any exists,
  is still reported. Here a candidate exists (\<open>xyz\<close>), its score is \<open>0\<close>, and the row
  reports no invoice item: the loop starts from \<open>best_score = 0.0\<close> and takes a candidate
  only on a strictly higher score.
\<close>

theorem row_selection_counterexample:
  "reconcile
     (PDict [(''items'', PList [PDict [(''description'', PStr ''abc'')]])])
     (PDict [(''items'', PList [PDict [(''description'', PStr ''xyz'')]])])
     (7 / 10) =
   Inr [(None,
         \<lparr>PO_Item = PStr ''abc'', PO_Qty = PStr [], PO_Price = PStr [], PO_Total = PStr [],
          Invoice_Item = PStr [], Invoice_Qty = PStr [], Invoice_Price = PStr [],
          Invoice_Total = PStr [], Status = ''Mismatch'', Match_Score = 0\<rparr>),
        (None,
         \<lparr>PO_Item = PStr [], PO_Qty = PStr [], PO_Price = PStr [], PO_Total = PStr [],
          Invoice_Item = PStr ''xyz'', Invoice_Qty = PStr [], Invoice_Price = PStr [],
          Invoice_Total = PStr [], Status = ''Mismatch'', Match_Score = 0\<rparr>)]"
  by code_simp

text \<open>
  C4, amended: for every purchase-order item, in input order, every unclaimed candidate is
  scored. If no score is above \<open>0\<close>, nothing is selected, nothing is claimed and the
  invoice fields of the row are blank. Otherwise the first candidate with the highest
  score is selected (every earlier candidate scores strictly less); its fields are
  reported in the row at any threshold, and its index is claimed exactly when the best
  score reaches the threshold.
\<close>

theorem row_selection:
  assumes "reconcile po_struct inv_struct t = Inr rows"
    and "items_of po_struct = Inr po_list" and "items_of inv_struct = Inr inv_list"
    and "k < length po_list"
  shows "let row = snd (rows ! k); po_it = po_list ! k;
             inv_used = set (claims (take k rows));
             cs = unclaimed inv_used inv_list;
             best = best_of po_it cs
         in list_all (\<lambda>c. \<exists>s. pair_score po_it (snd c) = Inr s \<and> s \<le> best) cs \<and>
            (case selected po_it cs of
               None \<Rightarrow>
                 best = 0 \<and> fst (rows ! k) = None \<and>
                 Invoice_Item row = PStr [] \<and> Invoice_Qty row = PStr [] \<and>
                 Invoice_Price row = PStr [] \<and> Invoice_Total row = PStr []
             | Some c \<Rightarrow>
                 0 < best \<and>
                 (\<exists>i < length cs. cs ! i = c \<and> pair_score po_it (snd c) = Inr best \<and>
                    (\<forall>j < i. projr (pair_score po_it (snd (cs ! j))) < best)) \<and>
                 fst c \<notin> inv_used \<and> fst c < length inv_list \<and> snd c = inv_list ! fst c \<and>
                 fst (rows ! k) = (if t \<le> best then Some (fst c) else None) \<and>
                 py_get (snd c) ''description'' (PStr []) = Inr (Invoice_Item row) \<and>
                 py_get (snd c) ''qty'' (PStr []) = Inr (Invoice_Qty row) \<and>
                 py_get (snd c) ''unit_price'' (PStr []) = Inr (Invoice_Price row) \<and>
                 py_get (snd c) ''total'' (PStr []) = Inr (Invoice_Total row)) \<and>
            set (claims (take (Suc k) rows)) =
              (case fst (rows ! k) of None \<Rightarrow> inv_used | Some idx \<Rightarrow> insert idx inv_used)"
proof -
  let ?row = "snd (rows ! k)" and ?po = "po_list ! k" and ?used = "set (claims (take k rows))"
  from assms(1,2,4) obtain inv_items where items: "get_items inv_struct = Inr inv_items"
    and step: "po_step t inv_items ?used ?po = Inr (fst (rows ! k), ?row, set (claims (take (Suc k) rows)))"
    by (rule reconcile_row)
  from step obtain inv_list' where c:
    "py_iter inv_items = Inr inv_list'"
    "list_all (\<lambda>c. \<exists>s. pair_score ?po (snd c) = Inr s) (unclaimed ?used inv_list')"
    "fst (rows ! k) = (case selected ?po (unclaimed ?used inv_list') of
                  None \<Rightarrow> None
                | Some c \<Rightarrow> if t \<le> best_of ?po (unclaimed ?used inv_list') then Some (fst c) else None)"
    "set (claims (take (Suc k) rows)) =
       (case fst (rows ! k) of None \<Rightarrow> ?used | Some idx \<Rightarrow> insert idx ?used)"
    "case selected ?po (unclaimed ?used inv_list') of
       None \<Rightarrow> Invoice_Item ?row = PStr [] \<and> Invoice_Qty ?row = PStr [] \<and>
               Invoice_Price ?row = PStr [] \<and> Invoice_Total ?row = PStr []
     | Some c \<Rightarrow> py_get (snd c) ''description'' (PStr []) = Inr (Invoice_Item ?row) \<and>
                 py_get (snd c) ''qty'' (PStr []) = Inr (Invoice_Qty ?row) \<and>
                 py_get (snd c) ''unit_price'' (PStr []) = Inr (Invoice_Price ?row) \<and>
                 py_get (snd c) ''total'' (PStr []) = Inr (Invoice_Total ?row)"
    by (rule po_step_char)
  have eq: "inv_list' = inv_list"
    using items_of_iter [OF items assms(3)] c(1) by simp
  let ?cs = "unclaimed ?used inv_list"
  note ok = c(2) [unfolded eq]
  have all: "list_all (\<lambda>c. \<exists>s. pair_score ?po (snd c) = Inr s \<and> s \<le> best_of ?po ?cs) ?cs"
    unfolding list_all_iff
  proof
    fix x assume x: "x \<in> set ?cs"
    with ok obtain s where s: "pair_score ?po (snd x) = Inr s"
      by (auto simp: list_all_iff)
    with x have "s \<in> set (scores ?po ?cs)"
      by (force simp: scores_def)
    then have "s \<le> best_of ?po ?cs"
      by (rule scores_le_best)
    with s show "\<exists>s. pair_score ?po (snd x) = Inr s \<and> s \<le> best_of ?po ?cs"
      by blast
  qed
  have sel: "case selected ?po ?cs of
      None \<Rightarrow> best_of ?po ?cs = 0 \<and> fst (rows ! k) = None \<and>
        Invoice_Item ?row = PStr [] \<and> Invoice_Qty ?row = PStr [] \<and>
        Invoice_Price ?row = PStr [] \<and> Invoice_Total ?row = PStr []
    | Some c \<Rightarrow>
        0 < best_of ?po ?cs \<and>
        (\<exists>i < length ?cs. ?cs ! i = c \<and> pair_score ?po (snd c) = Inr (best_of ?po ?cs) \<and>
           (\<forall>j < i. projr (pair_score ?po (snd (?cs ! j))) < best_of ?po ?cs)) \<and>
        fst c \<notin> ?used \<and> fst c < length inv_list \<and> snd c = inv_list ! fst c \<and>
        fst (rows ! k) = (if t \<le> best_of ?po ?cs then Some (fst c) else None) \<and>
        py_get (snd c) ''description'' (PStr []) = Inr (Invoice_Item ?row) \<and>
        py_get (snd c) ''qty'' (PStr []) = Inr (Invoice_Qty ?row) \<and>
        py_get (snd c) ''unit_price'' (PStr []) = Inr (Invoice_Price ?row) \<and>
        py_get (snd c) ''total'' (PStr []) = Inr (Invoice_Total ?row)"
  proof (cases "selected ?po ?cs")
    case None
    with selected_None_iff [OF ok] best_of_nonneg [of ?po ?cs] have "best_of ?po ?cs = 0"
      by simp
    with None c(3,5) show ?thesis
      by (simp add: eq)
  next
    case (Some x)
    note d = selected_SomeD [OF Some]
    from selected_first_max [OF ok Some] d c(3,5) Some show ?thesis
      by (simp add: eq)
  qed
  from all sel c(4) show ?thesis
    unfolding Let_def by (intro conjI)
qed

theorem row_selection_witness:
  "reconcile
     (PDict [(''items'', PList [PDict [(''description'', PStr ''a'')]])])
     (PDict [(''items'', PList [PDict [(''description'', PStr ''a b'')],
                                PDict [(''description'', PStr ''a c'')]])])
     (7 / 10) =
   Inr [(None,
         \<lparr>PO_Item = PStr ''a'', PO_Qty = PStr [], PO_Price = PStr [], PO_Total = PStr [],
          Invoice_Item = PStr ''a b'', Invoice_Qty = PStr [], Invoice_Price = PStr [],
          Invoice_Total = PStr [], Status = ''Mismatch'', Match_Score = 1 / 2\<rparr>),
        (None,
         \<lparr>PO_Item = PStr [], PO_Qty = PStr [], PO_Price = PStr [], PO_Total = PStr [],
          Invoice_Item = PStr ''a b'', Invoice_Qty = PStr [], Invoice_Price = PStr [],
          Invoice_Total = PStr [], Status = ''Mismatch'', Match_Score = 0\<rparr>),
        (None,
         \<lparr>PO_Item = PStr [], PO_Qty = PStr [], PO_Price = PStr [], PO_Total = PStr [],
          Invoice_Item = PStr ''a c'', Invoice_Qty = PStr [], Invoice_Price = PStr [],
          Invoice_Total = PStr [], Status = ''Mismatch'', Match_Score = 0\<rparr>)] \<and>
   pair_score (PDict [(''description'', PStr ''a'')]) (PDict [(''description'', PStr ''a b'')]) =
     Inr (1 / 2) \<and>
   pair_score (PDict [(''description'', PStr ''a'')]) (PDict [(''description'', PStr ''a c'')]) =
     Inr (1 / 2)"
proof -
  let ?po = "PDict [(''description'', PStr ''a'')]"
  let ?i0 = "PDict [(''description'', PStr ''a b'')]"
  let ?i1 = "PDict [(''description'', PStr ''a c'')]"
  have r: "reconcile (PDict [(''items'', PList [?po])]) (PDict [(''items'', PList [?i0, ?i1])]) (7 / 10) =
   Inr [(None,
         \<lparr>PO_Item = PStr ''a'', PO_Qty = PStr [], PO_Price = PStr [], PO_Total = PStr [],
          Invoice_Item = PStr ''a b'', Invoice_Qty = PStr [], Invoice_Price = PStr [],
          Invoice_Total = PStr [], Status = ''Mismatch'', Match_Score = 1 / 2\<rparr>),
        (None,
         \<lparr>PO_Item = PStr [], PO_Qty = PStr [], PO_Price = PStr [], PO_Total = PStr [],
          Invoice_Item = PStr ''a b'', Invoice_Qty = PStr [], Invoice_Price = PStr [],
          Invoice_Total = PStr [], Status = ''Mismatch'', Match_Score = 0\<rparr>),
        (None,
         \<lparr>PO_Item = PStr [], PO_Qty = PStr [], PO_Price = PStr [], PO_Total = PStr [],
          Invoice_Item = PStr ''a c'', Invoice_Qty = PStr [], Invoice_Price = PStr [],
          Invoice_Total = PStr [], Status = ''Mismatch'', Match_Score = 0\<rparr>)]"
    by code_simp
  have p: "items_of (PDict [(''items'', PList [?po])]) = Inr [?po]"
    by (simp add: items_of_def get_items_def)
  have i: "items_of (PDict [(''items'', PList [?i0, ?i1])]) = Inr [?i0, ?i1]"
    by (simp add: items_of_def get_items_def)
  have k: "0 < length [?po]"
    by simp
  have s0: "pair_score ?po ?i0 = Inr (1 / 2)"
    by code_simp
  have s1: "pair_score ?po ?i1 = Inr (1 / 2)"
    by code_simp
  show ?thesis
    using row_selection [OF r p i k] by (intro conjI r s0 s1)
qed

text \<open>
  C5. One-to-one claims: in every result no invoice index is claimed by two rows. The
  claimed indices are pairwise different, two rows that claim the same index are the same
  row, and every claimed index is the index of an invoice item.
\<close>

theorem claims_one_to_one:
  assumes "reconcile po_struct inv_struct t = Inr rows"
  shows "distinct (claims rows) \<and>
         (\<forall>k < length rows. \<forall>k' < length rows. \<forall>i.
            fst (rows ! k) = Some i \<longrightarrow> fst (rows ! k') = Some i \<longrightarrow> k = k') \<and>
         (\<exists>inv_list. items_of inv_struct = Inr inv_list \<and> (\<forall>i \<in> set (claims rows). i < length inv_list))"
proof -
  from assms obtain po_list inv_list where l: "items_of po_struct = Inr po_list"
    "items_of inv_struct = Inr inv_list"
    by (rule reconcile_char)
  note d = claims_distinct [OF assms l]
  from claims_nth_unique [OF d(1)] have
    "\<forall>k < length rows. \<forall>k' < length rows. \<forall>i.
       fst (rows ! k) = Some i \<longrightarrow> fst (rows ! k') = Some i \<longrightarrow> k = k'"
    by blast
  with d(1,2) l(2) show ?thesis by blast
qed

theorem claims_one_to_one_witness:
  "reconcile
     (PDict [(''items'', PList [PDict [(''description'', PStr ''ab'')],
                                PDict [(''description'', PStr ''ab'')]])])
     (PDict [(''items'', PList [PDict [(''description'', PStr ''ab'')]])])
     (1 / 2) =
   Inr [(Some 0,
         \<lparr>PO_Item = PStr ''ab'', PO_Qty = PStr [], PO_Price = PStr [], PO_Total = PStr [],
          Invoice_Item = PStr ''ab'', Invoice_Qty = PStr [], Invoice_Price = PStr [],
          Invoice_Total = PStr [], Status = ''Match'', Match_Score = 1\<rparr>),
        (None,
         \<lparr>PO_Item = PStr ''ab'', PO_Qty = PStr [], PO_Price = PStr [], PO_Total = PStr [],
          Invoice_Item = PStr [], Invoice_Qty = PStr [], Invoice_Price = PStr [],
          Invoice_Total = PStr [], Status = ''Mismatch'', Match_Score = 0\<rparr>)] \<and>
   distinct (claims
     [(Some 0,
       \<lparr>PO_Item = PStr ''ab'', PO_Qty = PStr [], PO_Price = PStr [], PO_Total = PStr [],
        Invoice_Item = PStr ''ab'', Invoice_Qty = PStr [], Invoice_Price = PStr [],
        Invoice_Total = PStr [], Status = ''Match'', Match_Score = 1\<rparr>),
      (None,
       \<lparr>PO_Item = PStr ''ab'', PO_Qty = PStr [], PO_Price = PStr [], PO_Total = PStr [],
        Invoice_Item = PStr [], Invoice_Qty = PStr [], Invoice_Price = PStr [],
        Invoice_Total = PStr [], Status = ''Mismatch'', Match_Score = 0\<rparr>)])"
proof -
  have r: "reconcile
     (PDict [(''items'', PList [PDict [(''description'', PStr ''ab'')],
                                PDict [(''description'', PStr ''ab'')]])])
     (PDict [(''items'', PList [PDict [(''description'', PStr ''ab'')]])])
     (1 / 2) =
   Inr [(Some 0,
         \<lparr>PO_Item = PStr ''ab'', PO_Qty = PStr [], PO_Price = PStr [], PO_Total = PStr [],
          Invoice_Item = PStr ''ab'', Invoice_Qty = PStr [], Invoice_Price = PStr [],
          Invoice_Total = PStr [], Status = ''Match'', Match_Score = 1\<rparr>),
        (None,
         \<lparr>PO_Item = PStr ''ab'', PO_Qty = PStr [], PO_Price = PStr [], PO_Total = PStr [],
          Invoice_Item = PStr [], Invoice_Qty = PStr [], Invoice_Price = PStr [],
          Invoice_Total = PStr [], Status = ''Mismatch'', Match_Score = 0\<rparr>)]"
    by code_simp
  show ?thesis
    by (intro conjI r claims_one_to_one [OF r, THEN conjunct1])
qed

text \<open>
  C6. Rows and their order. What \<open>compare_structures\<close> returns is the frame that
  \<open>pd.DataFrame\<close> makes of the list \<open>rows\<close>, and the law holds of that list: it has
  one row per purchase-order item, in input order and carrying that item's fields, then
  one row per invoice item whose index no row claimed, in input order, with blank
  purchase-order fields, the invoice item's fields, status \<open>Mismatch\<close> and score \<open>0\<close>.
  Its length is the number of purchase-order items plus the number of unclaimed invoice
  items, which is the number of invoice items minus the number of claims. The fields are
  those of the rows handed to the frame constructor; what the constructor makes of a cell
  is not part of the statement.
\<close>

theorem rows_layout:
  assumes "reconcile po_struct inv_struct t = Inr rows"
    and "items_of po_struct = Inr po_list" and "items_of inv_struct = Inr inv_list"
  shows "compare_structures DataFrame po_struct inv_struct t = DataFrame (map snd rows) \<and>
         length rows = length po_list + length (unclaimed (set (claims rows)) inv_list) \<and>
         length (unclaimed (set (claims rows)) inv_list) = length inv_list - length (claims rows) \<and>
         (\<forall>k < length po_list.
            py_get (po_list ! k) ''description'' (PStr []) = Inr (PO_Item (snd (rows ! k))) \<and>
            py_get (po_list ! k) ''qty'' (PStr []) = Inr (PO_Qty (snd (rows ! k))) \<and>
            py_get (po_list ! k) ''unit_price'' (PStr []) = Inr (PO_Price (snd (rows ! k))) \<and>
            py_get (po_list ! k) ''total'' (PStr []) = Inr (PO_Total (snd (rows ! k)))) \<and>
         list_all2
           (\<lambda>c r. fst r = None \<and>
              PO_Item (snd r) = PStr [] \<and> PO_Qty (snd r) = PStr [] \<and>
              PO_Price (snd r) = PStr [] \<and> PO_Total (snd r) = PStr [] \<and>
              py_get (snd c) ''description'' (PStr []) = Inr (Invoice_Item (snd r)) \<and>
              py_get (snd c) ''qty'' (PStr []) = Inr (Invoice_Qty (snd r)) \<and>
              py_get (snd c) ''unit_price'' (PStr []) = Inr (Invoice_Price (snd r)) \<and>
              py_get (snd c) ''total'' (PStr []) = Inr (Invoice_Total (snd r)) \<and>
              Status (snd r) = ''Mismatch'' \<and> Match_Score (snd r) = 0)
           (unclaimed (set (claims rows)) inv_list) (drop (length po_list) rows)"
proof -
  let ?U = "set (claims rows)"
  from assms obtain rest where sh: "length po_list \<le> length rows"
    "drop (length po_list) rows = map (Pair None) rest"
    "unmatched_rows ?U (enumerate 0 inv_list) = Inr rest"
    by (rule reconcile_shape)
  note d = claims_distinct [OF assms]
  have cs: "compare_structures DataFrame po_struct inv_struct t = DataFrame (map snd rows)"
    by (simp add: compare_structures_def assms(1))
  from unmatched_rows_char [OF sh(3)]
  have um: "list_all2 (\<lambda>c r. unmatched_row (snd c) = Inr r) (unclaimed ?U inv_list) rest"
    by (simp add: unclaimed_def)
  then have lrest: "length rest = length (unclaimed ?U inv_list)"
    by (simp add: list_all2_lengthD)
  have "length rows = length (take (length po_list) rows) + length (drop (length po_list) rows)"
    by simp
  also have "\<dots> = length po_list + length rest"
    using sh(1) by (simp add: sh(2))
  finally have len: "length rows = length po_list + length (unclaimed ?U inv_list)"
    by (simp add: lrest)
  have count: "length (unclaimed ?U inv_list) = length inv_list - length (claims rows)"
    by (rule length_unclaimed [OF d(1,2)])
  have po: "py_get (po_list ! k) ''description'' (PStr []) = Inr (PO_Item (snd (rows ! k))) \<and>
            py_get (po_list ! k) ''qty'' (PStr []) = Inr (PO_Qty (snd (rows ! k))) \<and>
            py_get (po_list ! k) ''unit_price'' (PStr []) = Inr (PO_Price (snd (rows ! k))) \<and>
            py_get (po_list ! k) ''total'' (PStr []) = Inr (PO_Total (snd (rows ! k)))"
    if "k < length po_list" for k
  proof -
    from assms(1,2) that obtain inv_items where
      step: "po_step t inv_items (set (claims (take k rows))) (po_list ! k) =
         Inr (fst (rows ! k), snd (rows ! k), set (claims (take (Suc k) rows)))"
      by (rule reconcile_row)
    from step show ?thesis
      by (rule po_step_char) blast
  qed
  have tr: "list_all2
           (\<lambda>c r. fst r = None \<and>
              PO_Item (snd r) = PStr [] \<and> PO_Qty (snd r) = PStr [] \<and>
              PO_Price (snd r) = PStr [] \<and> PO_Total (snd r) = PStr [] \<and>
              py_get (snd c) ''description'' (PStr []) = Inr (Invoice_Item (snd r)) \<and>
              py_get (snd c) ''qty'' (PStr []) = Inr (Invoice_Qty (snd r)) \<and>
              py_get (snd c) ''unit_price'' (PStr []) = Inr (Invoice_Price (snd r)) \<and>
              py_get (snd c) ''total'' (PStr []) = Inr (Invoice_Total (snd r)) \<and>
              Status (snd r) = ''Mismatch'' \<and> Match_Score (snd r) = 0)
           (unclaimed ?U inv_list) (map (Pair None) rest)"
    unfolding list_all2_map2
    by (rule list_all2_mono [OF um]) (use unmatched_row_char in auto)
  from cs len count po tr show ?thesis
    unfolding sh(2) by blast
qed

theorem rows_layout_witness:
  "reconcile
     (PDict [(''items'', PList [PDict [(''description'', PStr ''ab'')],
                                PDict [(''description'', PStr ''ab'')]])])
     (PDict [(''items'', PList [PDict [(''description'', PStr ''ab''), (''qty'', PInt 3)],
                                PDict [(''description'', PStr ''ab''), (''qty'', PInt 4)],
                                PDict [(''description'', PStr ''ab''), (''qty'', PInt 5)]])])
     (7 / 10) =
   Inr [(Some 0,
         \<lparr>PO_Item = PStr ''ab'', PO_Qty = PStr [], PO_Price = PStr [], PO_Total = PStr [],
          Invoice_Item = PStr ''ab'', Invoice_Qty = PInt 3, Invoice_Price = PStr [],
          Invoice_Total = PStr [], Status = ''Match'', Match_Score = 1\<rparr>),
        (Some 1,
         \<lparr>PO_Item = PStr ''ab'', PO_Qty = PStr [], PO_Price = PStr [], PO_Total = PStr [],
          Invoice_Item = PStr ''ab'', Invoice_Qty = PInt 4, Invoice_Price = PStr [],
          Invoice_Total = PStr [], Status = ''Match'', Match_Score = 1\<rparr>),
        (None,
         \<lparr>PO_Item = PStr [], PO_Qty = PStr [], PO_Price = PStr [], PO_Total = PStr [],
          Invoice_Item = PStr ''ab'', Invoice_Qty = PInt 5, Invoice_Price = PStr [],
          Invoice_Total = PStr [], Status = ''Mismatch'', Match_Score = 0\<rparr>)] \<and>
   items_of (PDict [(''items'', PList [PDict [(''description'', PStr ''ab'')],
                                       PDict [(''description'', PStr ''ab'')]])]) =
     Inr [PDict [(''description'', PStr ''ab'')], PDict [(''description'', PStr ''ab'')]] \<and>
   items_of (PDict [(''items'', PList [PDict [(''description'', PStr ''ab''), (''qty'', PInt 3)],
                                       PDict [(''description'', PStr ''ab''), (''qty'', PInt 4)],
                                       PDict [(''description'', PStr ''ab''), (''qty'', PInt 5)]])]) =
     Inr [PDict [(''description'', PStr ''ab''), (''qty'', PInt 3)],
          PDict [(''description'', PStr ''ab''), (''qty'', PInt 4)],
          PDict [(''description'', PStr ''ab''), (''qty'', PInt 5)]] \<and>
   claims
     [(Some 0,
       \<lparr>PO_Item = PStr ''ab'', PO_Qty = PStr [], PO_Price = PStr [], PO_Total = PStr [],
        Invoice_Item = PStr ''ab'', Invoice_Qty = PInt 3, Invoice_Price = PStr [],
        Invoice_Total = PStr [], Status = ''Match'', Match_Score = 1\<rparr>),
      (Some 1,
       \<lparr>PO_Item = PStr ''ab'', PO_Qty = PStr [], PO_Price = PStr [], PO_Total = PStr [],
        Invoice_Item = PStr ''ab'', Invoice_Qty = PInt 4, Invoice_Price = PStr [],
        Invoice_Total = PStr [], Status = ''Match'', Match_Score = 1\<rparr>),
      (None,
       \<lparr>PO_Item = PStr [], PO_Qty = PStr [], PO_Price = PStr [], PO_Total = PStr [],
        Invoice_Item = PStr ''ab'', Invoice_Qty = PInt 5, Invoice_Price = PStr [],
        Invoice_Total = PStr [], Status = ''Mismatch'', Match_Score = 0\<rparr>)] = [0, 1]"
proof -
  let ?po = "PDict [(''description'', PStr ''ab'')]"
  let ?i0 = "PDict [(''description'', PStr ''ab''), (''qty'', PInt 3)]"
  let ?i1 = "PDict [(''description'', PStr ''ab''), (''qty'', PInt 4)]"
  let ?i2 = "PDict [(''description'', PStr ''ab''), (''qty'', PInt 5)]"
  have r: "reconcile (PDict [(''items'', PList [?po, ?po])]) (PDict [(''items'', PList [?i0, ?i1, ?i2])]) (7 / 10) =
   Inr [(Some 0,
         \<lparr>PO_Item = PStr ''ab'', PO_Qty = PStr [], PO_Price = PStr [], PO_Total = PStr [],
          Invoice_Item = PStr ''ab'', Invoice_Qty = PInt 3, Invoice_Price = PStr [],
          Invoice_Total = PStr [], Status = ''Match'', Match_Score = 1\<rparr>),
        (Some 1,
         \<lparr>PO_Item = PStr ''ab'', PO_Qty = PStr [], PO_Price = PStr [], PO_Total = PStr [],
          Invoice_Item = PStr ''ab'', Invoice_Qty = PInt 4, Invoice_Price = PStr [],
          Invoice_Total = PStr [], Status = ''Match'', Match_Score = 1\<rparr>),
        (None,
         \<lparr>PO_Item = PStr [], PO_Qty = PStr [], PO_Price = PStr [], PO_Total = PStr [],
          Invoice_Item = PStr ''ab'', Invoice_Qty = PInt 5, Invoice_Price = PStr [],
          Invoice_Total = PStr [], Status = ''Mismatch'', Match_Score = 0\<rparr>)]"
    by code_simp
  have p: "items_of (PDict [(''items'', PList [?po, ?po])]) = Inr [?po, ?po]"
    by (simp add: items_of_def get_items_def)
  have i: "items_of (PDict [(''items'', PList [?i0, ?i1, ?i2])]) = Inr [?i0, ?i1, ?i2]"
    by (simp add: items_of_def get_items_def)
  have n: "claims
     [(Some 0,
       \<lparr>PO_Item = PStr ''ab'', PO_Qty = PStr [], PO_Price = PStr [], PO_Total = PStr [],
        Invoice_Item = PStr ''ab'', Invoice_Qty = PInt 3, Invoice_Price = PStr [],
        Invoice_Total = PStr [], Status = ''Match'', Match_Score = 1\<rparr>),
      (Some 1,
       \<lparr>PO_Item = PStr ''ab'', PO_Qty = PStr [], PO_Price = PStr [], PO_Total = PStr [],
        Invoice_Item = PStr ''ab'', Invoice_Qty = PInt 4, Invoice_Price = PStr [],
        Invoice_Total = PStr [], Status = ''Match'', Match_Score = 1\<rparr>),
      (None,
       \<lparr>PO_Item = PStr [], PO_Qty = PStr [], PO_Price = PStr [], PO_Total = PStr [],
        Invoice_Item = PStr ''ab'', Invoice_Qty = PInt 5, Invoice_Price = PStr [],
        Invoice_Total = PStr [], Status = ''Mismatch'', Match_Score = 0\<rparr>)] = [0, 1]"
    by simp
  show ?thesis
    using rows_layout [OF r p i] by (intro conjI r p i n)
qed

text \<open>
  C9. Missing items. A document struct that is null, or an object without the key
  \<open>items\<close>, reads as the empty item list, and the call returns what it returns for a
  document whose \<open>items\<close> is the empty list. When that holds of one of the two structs,
  and each struct is null or an object whose \<open>items\<close>, when present, is a list of objects,
  the call raises nothing at any threshold: it returns rows.
\<close>

theorem missing_items_tolerated:
  assumes "missing_items po_struct \<or> missing_items inv_struct"
    and "document po_struct" and "document inv_struct"
  shows "(missing_items po_struct \<longrightarrow> items_of po_struct = Inr []) \<and>
         (missing_items inv_struct \<longrightarrow> items_of inv_struct = Inr []) \<and>
         (\<exists>rows. reconcile po_struct inv_struct t = Inr rows) \<and>
         reconcile po_struct inv_struct t =
           reconcile
             (if missing_items po_struct then PDict [(''items'', PList [])] else po_struct)
             (if missing_items inv_struct then PDict [(''items'', PList [])] else inv_struct) t"
proof -
  from assms(2) obtain ps where ps: "get_items po_struct = Inr (PList ps)" "list_all is_object ps"
    by (rule document_get)
  from assms(3) obtain xs where xs: "get_items inv_struct = Inr (PList xs)" "list_all is_object xs"
    by (rule document_get)
  have a: "missing_items po_struct \<longrightarrow> items_of po_struct = Inr []"
    by (simp add: items_of_def missing_items_get)
  have b: "missing_items inv_struct \<longrightarrow> items_of inv_struct = Inr []"
    by (simp add: items_of_def missing_items_get)
  have c: "\<exists>rows. reconcile po_struct inv_struct t = Inr rows"
    using assms(1)
  proof
    assume "missing_items po_struct"
    then have "get_items po_struct = Inr (PList [])"
      by (rule missing_items_get)
    moreover from unmatched_rows_objects [OF xs(2)]
    obtain rest where "unmatched_rows {} (enumerate 0 xs) = Inr rest"
      by blast
    ultimately show ?thesis
      by (simp add: reconcile_def xs(1))
  next
    assume "missing_items inv_struct"
    then have i: "get_items inv_struct = Inr (PList [])"
      by (rule missing_items_get)
    from po_loop_no_candidates [OF ps(2)]
    obtain prs where "po_loop t (PList []) {} ps = Inr (prs, {})"
      by blast
    with i show ?thesis
      by (simp add: reconcile_def ps(1))
  qed
  have d: "reconcile po_struct inv_struct t =
           reconcile
             (if missing_items po_struct then PDict [(''items'', PList [])] else po_struct)
             (if missing_items inv_struct then PDict [(''items'', PList [])] else inv_struct) t"
    by (rule reconcile_get_items) (simp_all add: missing_items_get get_items_empty)
  from a b c d show ?thesis
    by blast
qed

theorem missing_items_tolerated_witness:
  "missing_items PNone \<and> document PNone \<and>
   document (PDict [(''items'', PList [PDict [(''description'', PStr ''x''), (''qty'', PInt 2)]])]) \<and>
   items_of PNone = Inr [] \<and>
   reconcile PNone
     (PDict [(''items'', PList [PDict [(''description'', PStr ''x''), (''qty'', PInt 2)]])]) (7 / 10) =
   Inr [(None,
         \<lparr>PO_Item = PStr [], PO_Qty = PStr [], PO_Price = PStr [], PO_Total = PStr [],
          Invoice_Item = PStr ''x'', Invoice_Qty = PInt 2, Invoice_Price = PStr [],
          Invoice_Total = PStr [], Status = ''Mismatch'', Match_Score = 0\<rparr>)] \<and>
   reconcile (PDict [(''items'', PList [])])
     (PDict [(''items'', PList [PDict [(''description'', PStr ''x''), (''qty'', PInt 2)]])]) (7 / 10) =
   Inr [(None,
         \<lparr>PO_Item = PStr [], PO_Qty = PStr [], PO_Price = PStr [], PO_Total = PStr [],
          Invoice_Item = PStr ''x'', Invoice_Qty = PInt 2, Invoice_Price = PStr [],
          Invoice_Total = PStr [], Status = ''Mismatch'', Match_Score = 0\<rparr>)]"
proof -
  let ?inv = "PDict [(''items'', PList [PDict [(''description'', PStr ''x''), (''qty'', PInt 2)]])]"
  let ?rows = "[(None :: nat option,
         \<lparr>PO_Item = PStr [], PO_Qty = PStr [], PO_Price = PStr [], PO_Total = PStr [],
          Invoice_Item = PStr ''x'', Invoice_Qty = PInt 2, Invoice_Price = PStr [],
          Invoice_Total = PStr [], Status = ''Mismatch'', Match_Score = 0\<rparr>)]"
  have m: "missing_items PNone \<or> missing_items ?inv"
    by simp
  have m': "missing_items PNone"
    by simp
  have p: "document PNone"
    by simp
  have i: "document ?inv"
    by simp
  have r: "reconcile PNone ?inv (7 / 10) = Inr ?rows"
    by code_simp
  note t = missing_items_tolerated [OF m p i, of "7 / 10"]
  from t m' have e: "items_of PNone = Inr []"
    by blast
  from t have "reconcile PNone ?inv (7 / 10) =
     reconcile (if missing_items PNone then PDict [(''items'', PList [])] else PNone)
       (if missing_items ?inv then PDict [(''items'', PList [])] else ?inv) (7 / 10)"
    by blast
  with r have r': "reconcile (PDict [(''items'', PList [])]) ?inv (7 / 10) = Inr ?rows"
    by simp
  show ?thesis
    by (intro conjI m' p i e r r')
qed

text \<open>
  C10. Threshold \<open>0\<close>. A purchase-order item that has no unclaimed candidate left and no
  \<open>total\<close> has best score \<open>0\<close>, which reaches the threshold \<open>0\<close>, and its absent total
  reads as the empty string, which is the blank invoice total: its row claims nothing, has
  blank invoice fields, score \<open>0\<close> and status \<open>Match\<close>. Such a row exists: some call at
  threshold \<open>0\<close> returns a row with status \<open>Match\<close>, no claim and blank invoice fields.
\<close>

theorem zero_threshold_match:
  assumes "reconcile po_struct inv_struct 0 = Inr rows"
    and "items_of po_struct = Inr po_list" and "items_of inv_struct = Inr inv_list"
    and "k < length po_list"
    and "unclaimed (set (claims (take k rows))) inv_list = []"
    and "po_list ! k = PDict kvs" and "map_of kvs ''total'' = None"
  shows "best_of (po_list ! k) (unclaimed (set (claims (take k rows))) inv_list) = 0 \<and>
         fst (rows ! k) = None \<and>
         PO_Total (snd (rows ! k)) = PStr [] \<and>
         Invoice_Item (snd (rows ! k)) = PStr [] \<and> Invoice_Qty (snd (rows ! k)) = PStr [] \<and>
         Invoice_Price (snd (rows ! k)) = PStr [] \<and> Invoice_Total (snd (rows ! k)) = PStr [] \<and>
         Status (snd (rows ! k)) = ''Match'' \<and> Match_Score (snd (rows ! k)) = 0 \<and>
         (\<exists>po inv rs r. reconcile po inv 0 = Inr rs \<and> (None, r) \<in> set rs \<and>
            Status r = ''Match'' \<and> Invoice_Item r = PStr [] \<and> Invoice_Qty r = PStr [] \<and>
            Invoice_Price r = PStr [] \<and> Invoice_Total r = PStr [])"
proof -
  let ?row = "snd (rows ! k)"
  let ?r = "\<lparr>PO_Item = PStr ''x'', PO_Qty = PStr [], PO_Price = PStr [], PO_Total = PStr [],
            Invoice_Item = PStr [], Invoice_Qty = PStr [], Invoice_Price = PStr [],
            Invoice_Total = PStr [], Status = ''Match'', Match_Score = 0\<rparr>"
  have "reconcile (PDict [(''items'', PList [PDict [(''description'', PStr ''x'')]])]) PNone 0 =
     Inr [(None, ?r)]"
    by code_simp
  then have "reconcile (PDict [(''items'', PList [PDict [(''description'', PStr ''x'')]])]) PNone 0 =
       Inr [(None, ?r)] \<and> (None, ?r) \<in> set [(None, ?r)] \<and>
     Status ?r = ''Match'' \<and> Invoice_Item ?r = PStr [] \<and> Invoice_Qty ?r = PStr [] \<and>
     Invoice_Price ?r = PStr [] \<and> Invoice_Total ?r = PStr []"
    by simp
  then have ex: "\<exists>po inv rs r. reconcile po inv 0 = Inr rs \<and> (None, r) \<in> set rs \<and>
            Status r = ''Match'' \<and> Invoice_Item r = PStr [] \<and> Invoice_Qty r = PStr [] \<and>
            Invoice_Price r = PStr [] \<and> Invoice_Total r = PStr []"
    by blast
  from assms(1,2,4) obtain inv_items where items: "get_items inv_struct = Inr inv_items"
    and step: "po_step 0 inv_items (set (claims (take k rows))) (po_list ! k) =
       Inr (fst (rows ! k), ?row, set (claims (take (Suc k) rows)))"
    by (rule reconcile_row)
  from step obtain inv_list' where c:
    "py_iter inv_items = Inr inv_list'"
    "fst (rows ! k) = (case selected (po_list ! k) (unclaimed (set (claims (take k rows))) inv_list') of
                  None \<Rightarrow> None
                | Some c \<Rightarrow> if 0 \<le> best_of (po_list ! k) (unclaimed (set (claims (take k rows))) inv_list')
                    then Some (fst c) else None)"
    "py_get (po_list ! k) ''total'' (PStr []) = Inr (PO_Total ?row)"
    "case selected (po_list ! k) (unclaimed (set (claims (take k rows))) inv_list') of
       None \<Rightarrow> Invoice_Item ?row = PStr [] \<and> Invoice_Qty ?row = PStr [] \<and>
               Invoice_Price ?row = PStr [] \<and> Invoice_Total ?row = PStr []
     | Some c \<Rightarrow> py_get (snd c) ''description'' (PStr []) = Inr (Invoice_Item ?row) \<and>
                 py_get (snd c) ''qty'' (PStr []) = Inr (Invoice_Qty ?row) \<and>
                 py_get (snd c) ''unit_price'' (PStr []) = Inr (Invoice_Price ?row) \<and>
                 py_get (snd c) ''total'' (PStr []) = Inr (Invoice_Total ?row)"
    "Status ?row =
       (if 0 \<le> best_of (po_list ! k) (unclaimed (set (claims (take k rows))) inv_list') \<and>
           py_str (PO_Total ?row) = py_str (Invoice_Total ?row)
        then ''Match''
        else if 0 \<le> best_of (po_list ! k) (unclaimed (set (claims (take k rows))) inv_list')
          then ''Partial Match''
        else ''Mismatch'')"
    "Match_Score ?row = round2 (best_of (po_list ! k) (unclaimed (set (claims (take k rows))) inv_list'))"
    by (rule po_step_char)
  have eq: "inv_list' = inv_list"
    using items_of_iter [OF items assms(3)] c(1) by simp
  have total: "PO_Total ?row = PStr []"
    using c(3) by (simp add: assms(6,7))
  from c(2,4,5,6) total have "best_of (po_list ! k) (unclaimed (set (claims (take k rows))) inv_list) = 0 \<and>
         fst (rows ! k) = None \<and>
         PO_Total ?row = PStr [] \<and>
         Invoice_Item ?row = PStr [] \<and> Invoice_Qty ?row = PStr [] \<and>
         Invoice_Price ?row = PStr [] \<and> Invoice_Total ?row = PStr [] \<and>
         Status ?row = ''Match'' \<and> Match_Score ?row = 0"
    unfolding eq assms(5) by (simp add: best_of_Nil selected_Nil round2_0)
  with ex show ?thesis
    by (simp only: simp_thms)
qed

theorem zero_threshold_match_witness:
  "reconcile (PDict [(''items'', PList [PDict [(''description'', PStr ''x'')]])]) PNone 0 =
     Inr [(None,
           \<lparr>PO_Item = PStr ''x'', PO_Qty = PStr [], PO_Price = PStr [], PO_Total = PStr [],
            Invoice_Item = PStr [], Invoice_Qty = PStr [], Invoice_Price = PStr [],
            Invoice_Total = PStr [], Status = ''Match'', Match_Score = 0\<rparr>)] \<and>
   items_of (PDict [(''items'', PList [PDict [(''description'', PStr ''x'')]])]) =
     Inr [PDict [(''description'', PStr ''x'')]] \<and>
   items_of PNone = Inr [] \<and>
   unclaimed (set (claims (take 0
     [(None :: nat option,
       \<lparr>PO_Item = PStr ''x'', PO_Qty = PStr [], PO_Price = PStr [], PO_Total = PStr [],
        Invoice_Item = PStr [], Invoice_Qty = PStr [], Invoice_Price = PStr [],
        Invoice_Total = PStr [], Status = ''Match'', Match_Score = 0\<rparr>)]))) [] = [] \<and>
   map_of [(''description'', PStr ''x'')] ''total'' = None \<and>
   best_of (PDict [(''description'', PStr ''x'')]) [] = 0"
proof -
  let ?po = "PDict [(''description'', PStr ''x'')]"
  let ?rows = "[(None :: nat option,
           \<lparr>PO_Item = PStr ''x'', PO_Qty = PStr [], PO_Price = PStr [], PO_Total = PStr [],
            Invoice_Item = PStr [], Invoice_Qty = PStr [], Invoice_Price = PStr [],
            Invoice_Total = PStr [], Status = ''Match'', Match_Score = 0\<rparr>)]"
  have r: "reconcile (PDict [(''items'', PList [?po])]) PNone 0 = Inr ?rows"
    by code_simp
  have p: "items_of (PDict [(''items'', PList [?po])]) = Inr [?po]"
    by (simp add: items_of_def get_items_def)
  have i: "items_of PNone = Inr []"
    by (simp add: items_of_def get_items_def)
  have k: "0 < length [?po]"
    by simp
  have u: "unclaimed (set (claims (take 0 ?rows))) [] = []"
    by (simp add: unclaimed_def)
  have d: "[?po] ! 0 = PDict [(''description'', PStr ''x'')]"
    by simp
  have m: "map_of [(''description'', PStr ''x'')] ''total'' = None"
    by simp
  from zero_threshold_match [OF r p i k u d m] have "best_of ([?po] ! 0) (unclaimed (set (claims (take 0 ?rows))) []) = 0"
    by (rule conjunct1)
  then have b: "best_of ?po [] = 0"
    by (simp add: unclaimed_def)
  show ?thesis
    by (intro conjI r p i u m b)
qed

text \<open>
  C3. Threshold monotonicity. For two calls on the same documents that return rows, at
  thresholds \<open>t1 \<le> t2\<close>: the number of rows with status \<open>Match\<close> or \<open>Partial Match\<close> at
  \<open>t2\<close> is at most that at \<open>t1\<close>, and the number of rows with status \<open>Mismatch\<close> at \<open>t2\<close>
  is at least that at \<open>t1\<close>.
\<close>

theorem threshold_monotone:
  assumes "reconcile po_struct inv_struct t1 = Inr rows1"
    and "reconcile po_struct inv_struct t2 = Inr rows2"
    and "t1 \<le> t2"
  shows "matched_count rows2 \<le> matched_count rows1 \<and>
         mismatch_count rows1 \<le> mismatch_count rows2"
proof -
  from assms(1) obtain po_list inv_list where po: "items_of po_struct = Inr po_list"
    and inv: "items_of inv_struct = Inr inv_list"
    by (rule reconcile_char)
  note c1 = reconcile_counts [OF assms(1) po inv] and c2 = reconcile_counts [OF assms(2) po inv]
  note cl = claims_count_mono [OF assms]
  have m: "matched_count rows2 \<le> matched_count rows1"
  proof (cases "0 < t1")
    case True
    with assms(3) have "0 < t2" by simp
    with True c1(5) c2(5) cl show ?thesis by simp
  next
    case False
    then have "t1 \<le> 0" by simp
    with c1(6) c2(4) show ?thesis by simp
  qed
  have "mismatch_count rows1 = length po_list + (length inv_list - length (claims rows1)) - matched_count rows1"
    using c1(1,2) by simp
  moreover have "mismatch_count rows2 = length po_list + (length inv_list - length (claims rows2)) - matched_count rows2"
    using c2(1,2) by simp
  ultimately have "mismatch_count rows1 \<le> mismatch_count rows2"
    using m cl by simp
  with m show ?thesis ..
qed

theorem threshold_monotone_witness:
  "reconcile
     (PDict [(''items'', PList [PDict [(''description'', PStr ''ab''), (''total'', PInt 5)]])])
     (PDict [(''items'', PList [PDict [(''description'', PStr ''ab cde''), (''total'', PInt 5)]])])
     (1 / 2) =
   Inr [(Some 0,
         \<lparr>PO_Item = PStr ''ab'', PO_Qty = PStr [], PO_Price = PStr [], PO_Total = PInt 5,
          Invoice_Item = PStr ''ab cde'', Invoice_Qty = PStr [], Invoice_Price = PStr [],
          Invoice_Total = PInt 5, Status = ''Match'', Match_Score = 1 / 2\<rparr>)] \<and>
   reconcile
     (PDict [(''items'', PList [PDict [(''description'', PStr ''ab''), (''total'', PInt 5)]])])
     (PDict [(''items'', PList [PDict [(''description'', PStr ''ab cde''), (''total'', PInt 5)]])])
     (7 / 10) =
   Inr [(None,
         \<lparr>PO_Item = PStr ''ab'', PO_Qty = PStr [], PO_Price = PStr [], PO_Total = PInt 5,
          Invoice_Item = PStr ''ab cde'', Invoice_Qty = PStr [], Invoice_Price = PStr [],
          Invoice_Total = PInt 5, Status = ''Mismatch'', Match_Score = 1 / 2\<rparr>),
        (None,
         \<lparr>PO_Item = PStr [], PO_Qty = PStr [], PO_Price = PStr [], PO_Total = PStr [],
          Invoice_Item = PStr ''ab cde'', Invoice_Qty = PStr [], Invoice_Price = PStr [],
          Invoice_Total = PInt 5, Status = ''Mismatch'', Match_Score = 0\<rparr>)] \<and>
   (1 / 2 :: rat) \<le> 7 / 10 \<and>
   matched_count
     [(None :: nat option,
       \<lparr>PO_Item = PStr ''ab'', PO_Qty = PStr [], PO_Price = PStr [], PO_Total = PInt 5,
        Invoice_Item = PStr ''ab cde'', Invoice_Qty = PStr [], Invoice_Price = PStr [],
        Invoice_Total = PInt 5, Status = ''Mismatch'', Match_Score = 1 / 2\<rparr>),
      (None,
       \<lparr>PO_Item = PStr [], PO_Qty = PStr [], PO_Price = PStr [], PO_Total = PStr [],
        Invoice_Item = PStr ''ab cde'', Invoice_Qty = PStr [], Invoice_Price = PStr [],
        Invoice_Total = PInt 5, Status = ''Mismatch'', Match_Score = 0\<rparr>)] \<le>
   matched_count
     [(Some 0,
       \<lparr>PO_Item = PStr ''ab'', PO_Qty = PStr [], PO_Price = PStr [], PO_Total = PInt 5,
        Invoice_Item = PStr ''ab cde'', Invoice_Qty = PStr [], Invoice_Price = PStr [],
        Invoice_Total = PInt 5, Status = ''Match'', Match_Score = 1 / 2\<rparr>)] \<and>
   mismatch_count
     [(Some 0,
       \<lparr>PO_Item = PStr ''ab'', PO_Qty = PStr [], PO_Price = PStr [], PO_Total = PInt 5,
        Invoice_Item = PStr ''ab cde'', Invoice_Qty = PStr [], Invoice_Price = PStr [],
        Invoice_Total = PInt 5, Status = ''Match'', Match_Score = 1 / 2\<rparr>)] \<le>
   mismatch_count
     [(None :: nat option,
       \<lparr>PO_Item = PStr ''ab'', PO_Qty = PStr [], PO_Price = PStr [], PO_Total = PInt 5,
        Invoice_Item = PStr ''ab cde'', Invoice_Qty = PStr [], Invoice_Price = PStr [],
        Invoice_Total = PInt 5, Status = ''Mismatch'', Match_Score = 1 / 2\<rparr>),
      (None,
       \<lparr>PO_Item = PStr [], PO_Qty = PStr [], PO_Price = PStr [], PO_Total = PStr [],
        Invoice_Item = PStr ''ab cde'', Invoice_Qty = PStr [], Invoice_Price = PStr [],
        Invoice_Total = PInt 5, Status = ''Mismatch'', Match_Score = 0\<rparr>)] \<and>
   matched_count
     [(None :: nat option,
       \<lparr>PO_Item = PStr ''ab'', PO_Qty = PStr [], PO_Price = PStr [], PO_Total = PInt 5,
        Invoice_Item = PStr ''ab cde'', Invoice_Qty = PStr [], Invoice_Price = PStr [],
        Invoice_Total = PInt 5, Status = ''Mismatch'', Match_Score = 1 / 2\<rparr>),
      (None,
       \<lparr>PO_Item = PStr [], PO_Qty = PStr [], PO_Price = PStr [], PO_Total = PStr [],
        Invoice_Item = PStr ''ab cde'', Invoice_Qty = PStr [], Invoice_Price = PStr [],
        Invoice_Total = PInt 5, Status = ''Mismatch'', Match_Score = 0\<rparr>)] = 0 \<and>
   matched_count
     [(Some 0,
       \<lparr>PO_Item = PStr ''ab'', PO_Qty = PStr [], PO_Price = PStr [], PO_Total = PInt 5,
        Invoice_Item = PStr ''ab cde'', Invoice_Qty = PStr [], Invoice_Price = PStr [],
        Invoice_Total = PInt 5, Status = ''Match'', Match_Score = 1 / 2\<rparr>)] = 1 \<and>
   mismatch_count
     [(Some 0,
       \<lparr>PO_Item = PStr ''ab'', PO_Qty = PStr [], PO_Price = PStr [], PO_Total = PInt 5,
        Invoice_Item = PStr ''ab cde'', Invoice_Qty = PStr [], Invoice_Price = PStr [],
        Invoice_Total = PInt 5, Status = ''Match'', Match_Score = 1 / 2\<rparr>)] = 0 \<and>
   mismatch_count
     [(None :: nat option,
       \<lparr>PO_Item = PStr ''ab'', PO_Qty = PStr [], PO_Price = PStr [], PO_Total = PInt 5,
        Invoice_Item = PStr ''ab cde'', Invoice_Qty = PStr [], Invoice_Price = PStr [],
        Invoice_Total = PInt 5, Status = ''Mismatch'', Match_Score = 1 / 2\<rparr>),
      (None,
       \<lparr>PO_Item = PStr [], PO_Qty = PStr [], PO_Price = PStr [], PO_Total = PStr [],
        Invoice_Item = PStr ''ab cde'', Invoice_Qty = PStr [], Invoice_Price = PStr [],
        Invoice_Total = PInt 5, Status = ''Mismatch'', Match_Score = 0\<rparr>)] = 2"
proof -
  let ?po = "PDict [(''items'', PList [PDict [(''description'', PStr ''ab''), (''total'', PInt 5)]])]"
  let ?inv = "PDict [(''items'', PList [PDict [(''description'', PStr ''ab cde''), (''total'', PInt 5)]])]"
  let ?rows1 = "[(Some (0 :: nat),
         \<lparr>PO_Item = PStr ''ab'', PO_Qty = PStr [], PO_Price = PStr [], PO_Total = PInt 5,
          Invoice_Item = PStr ''ab cde'', Invoice_Qty = PStr [], Invoice_Price = PStr [],
          Invoice_Total = PInt 5, Status = ''Match'', Match_Score = 1 / 2\<rparr>)]"
  let ?rows2 = "[(None :: nat option,
         \<lparr>PO_Item = PStr ''ab'', PO_Qty = PStr [], PO_Price = PStr [], PO_Total = PInt 5,
          Invoice_Item = PStr ''ab cde'', Invoice_Qty = PStr [], Invoice_Price = PStr [],
          Invoice_Total = PInt 5, Status = ''Mismatch'', Match_Score = 1 / 2\<rparr>),
        (None,
         \<lparr>PO_Item = PStr [], PO_Qty = PStr [], PO_Price = PStr [], PO_Total = PStr [],
          Invoice_Item = PStr ''ab cde'', Invoice_Qty = PStr [], Invoice_Price = PStr [],
          Invoice_Total = PInt 5, Status = ''Mismatch'', Match_Score = 0\<rparr>)]"
  have r1: "reconcile ?po ?inv (1 / 2) = Inr ?rows1"
    by code_simp
  have r2: "reconcile ?po ?inv (7 / 10) = Inr ?rows2"
    by code_simp
  have le: "(1 / 2 :: rat) \<le> 7 / 10"
    by simp
  have m2: "matched_count ?rows2 = 0"
    by (simp add: matched_count_def)
  have m1: "matched_count ?rows1 = 1"
    by (simp add: matched_count_def)
  have x1: "mismatch_count ?rows1 = 0"
    by (simp add: mismatch_count_def)
  have x2: "mismatch_count ?rows2 = 2"
    by (simp add: mismatch_count_def)
  from threshold_monotone [OF r1 r2 le]
  have a: "matched_count ?rows2 \<le> matched_count ?rows1"
    and b: "mismatch_count ?rows1 \<le> mismatch_count ?rows2"
    by simp_all
  show ?thesis
    by (intro conjI r1 r2 le a b m2 m1 x1 x2)
qed

end
